theory Spec2Isabelle
  imports Main "HOL-Library.Word" "HOL-Library.Sublist"
begin

section \<open>Library functions used by the package\<close>

text \<open>
  Go strings are byte sequences; they are modelled as \<open>string\<close> (a list of 8-bit
  characters).  The functions of this section are the parts of Go's \<open>strconv\<close> that
  \<open>mpd.go\<close> calls, written after their documented behaviour.
\<close>

definition byte :: "char \<Rightarrow> nat" where
  "byte c = of_char c"

definition is_digit :: "char \<Rightarrow> bool" where
  "is_digit c = (48 \<le> byte c \<and> byte c \<le> 57)"

definition digit_val :: "char \<Rightarrow> nat" where
  "digit_val c = byte c - 48"

definition digit_char :: "nat \<Rightarrow> char" where
  "digit_char d = ''0123456789'' ! d"

datatype NumError = ErrSyntax | ErrRange

definition maxUint64 :: nat where
  "maxUint64 = 2 ^ 64 - 1"

definition cutoff :: nat where
  "cutoff = maxUint64 div 10 + 1"

text \<open>
  The digit loop of \<open>strconv.ParseUint(s, 10, 64)\<close>.  With base 10 every byte that is
  not a decimal digit is a syntax error (a letter has digit value at least 10, an
  underscore is accepted for base 0 only).  The accumulator \<open>n\<close> is a uint64 in the
  source: \<open>n \<ge> cutoff\<close> is tested before the multiplication, so \<open>n * 10\<close> cannot
  wrap, and the source's test \<open>n1 < n || n1 > maxVal\<close> for the wrap-around of
  \<open>n1 = n + d\<close> is the test \<open>n1 > maxUint64\<close> on unbounded naturals.
\<close>

fun ParseUint_loop :: "nat \<Rightarrow> string \<Rightarrow> NumError + nat" where
  "ParseUint_loop n [] = Inr n"
| "ParseUint_loop n (c # cs) =
     (if \<not> is_digit c then Inl ErrSyntax
      else if n \<ge> cutoff then Inl ErrRange
      else (let n1 = n * 10 + digit_val c
            in if n1 > maxUint64 then Inl ErrRange else ParseUint_loop n1 cs))"

definition ParseUint :: "string \<Rightarrow> NumError + 64 word" where
  "ParseUint s =
     (if s = [] then Inl ErrSyntax
      else (case ParseUint_loop 0 s of Inl e \<Rightarrow> Inl e | Inr n \<Rightarrow> Inr (word_of_nat n)))"

text \<open>\<open>strconv.ParseBool\<close>: exactly twelve spellings are accepted.\<close>

definition ParseBool :: "string \<Rightarrow> NumError + bool" where
  "ParseBool str =
     (if str \<in> set [''1'', ''t'', ''T'', ''TRUE'', ''true'', ''True''] then Inr True
      else if str \<in> set [''0'', ''f'', ''F'', ''FALSE'', ''false'', ''False''] then Inr False
      else Inl ErrSyntax)"

definition FormatBool :: "bool \<Rightarrow> string" where
  "FormatBool v = (if v then ''true'' else ''false'')"

text \<open>\<open>strconv.FormatUint(u, 10)\<close>: the decimal digits, most significant first.\<close>

function FormatNat :: "nat \<Rightarrow> string" where
  "FormatNat n = (if n < 10 then [digit_char n] else FormatNat (n div 10) @ [digit_char (n mod 10)])"
  by pat_completeness auto
termination
  by (relation "measure id") auto

declare FormatNat.simps [simp del]

definition FormatUint :: "64 word \<Rightarrow> string" where
  "FormatUint v = FormatNat (unat v)"

subsection \<open>UTF-8 decoding\<close>

text \<open>
  \<open>utf8.DecodeRuneInString\<close>: the first code point of \<open>s\<close> and its width in bytes;
  \<open>(RuneError, 1)\<close> for a byte sequence that is not a valid encoding (a stray
  continuation byte, an overlong form, a surrogate, a value above U+10FFFF, a truncated
  sequence) and \<open>(RuneError, 0)\<close> for the empty string.
\<close>

definition RuneError :: nat where
  "RuneError = 0xFFFD"

fun DecodeRune :: "string \<Rightarrow> nat \<times> nat" where
  "DecodeRune [] = (RuneError, 0)"
| "DecodeRune (c0 # cs) =
     (let s0 = byte c0 in
      if s0 < 0x80 then (s0, 1)
      else if s0 < 0xC2 \<or> 0xF4 < s0 then (RuneError, 1)
      else
        (let sz = (if s0 < 0xE0 then 2 else if s0 < 0xF0 then 3 else 4 :: nat);
             lo = (if s0 = 0xE0 then 0xA0 else if s0 = 0xF0 then 0x90 else 0x80);
             hi = (if s0 = 0xED then 0x9F else if s0 = 0xF4 then 0x8F else 0xBF)
         in if length (c0 # cs) < sz then (RuneError, 1)
            else
              (let s1 = byte (cs ! 0) in
               if s1 < lo \<or> hi < s1 then (RuneError, 1)
               else if sz \<le> 2 then ((s0 mod 32) * 64 + s1 mod 64, 2)
               else
                 (let s2 = byte (cs ! 1) in
                  if s2 < 0x80 \<or> 0xBF < s2 then (RuneError, 1)
                  else if sz \<le> 3 then ((s0 mod 16) * 4096 + (s1 mod 64) * 64 + s2 mod 64, 3)
                  else
                    (let s3 = byte (cs ! 2) in
                     if s3 < 0x80 \<or> 0xBF < s3 then (RuneError, 1)
                     else ((s0 mod 8) * 262144 + (s1 mod 64) * 4096 + (s2 mod 64) * 64
                             + s3 mod 64, 4))))))"

definition RuneStart :: "char \<Rightarrow> bool" where
  "RuneStart c = (byte c < 0x80 \<or> 0xC0 \<le> byte c)"

text \<open>
  \<open>utf8.DecodeLastRuneInString\<close>: the source steps back from the last byte over at most
  three further bytes to the nearest byte that can start an encoding, decodes from
  there, and accepts the result only if it ends exactly at the end of the string.
  \<open>back\<close> is the number of bytes between that start and the end.
\<close>

definition DecodeLastRune :: "string \<Rightarrow> nat \<times> nat" where
  "DecodeLastRune s =
     (let n = length s in
      if n = 0 then (RuneError, 0)
      else if byte (s ! (n - 1)) < 0x80 then (byte (s ! (n - 1)), 1)
      else
        (let back =
               (if 2 \<le> n \<and> RuneStart (s ! (n - 2)) then 2
                else if 3 \<le> n \<and> RuneStart (s ! (n - 3)) then 3
                else if 4 \<le> n \<and> RuneStart (s ! (n - 4)) then 4
                else if 5 \<le> n then 5
                else n);
             d = DecodeRune (drop (n - back) s)
         in if snd d \<noteq> back then (RuneError, 1) else d))"

text \<open>\<open>unicode.IsSpace\<close>: the code points with the Unicode White_Space property.\<close>

definition IsSpace :: "nat \<Rightarrow> bool" where
  "IsSpace r =
     (if r \<le> 0xFF then r \<in> set [0x09, 0x0A, 0x0B, 0x0C, 0x0D, 0x20, 0x85, 0xA0]
      else r = 0x1680 \<or> (0x2000 \<le> r \<and> r \<le> 0x200A) \<or> r = 0x2028 \<or> r = 0x2029
           \<or> r = 0x202F \<or> r = 0x205F \<or> r = 0x3000)"

lemma DecodeRune_width_pos: "s \<noteq> [] \<Longrightarrow> 0 < snd (DecodeRune s)"
  by (cases s) (simp_all add: Let_def)

lemma DecodeLastRune_width_pos: "s \<noteq> [] \<Longrightarrow> 0 < snd (DecodeLastRune s)"
  by (auto simp: DecodeLastRune_def Let_def)

subsection \<open>Package strings\<close>

text \<open>
  \<open>strings.TrimLeftFunc\<close> and \<open>strings.TrimRightFunc\<close> remove the leading and the
  trailing code points that satisfy \<open>f\<close>; \<open>strings.TrimSpace\<close> removes leading and
  trailing white space as Unicode defines it (its loop over ASCII bytes is a short cut
  to the same result).
\<close>

function TrimLeftFunc :: "string \<Rightarrow> (nat \<Rightarrow> bool) \<Rightarrow> string" where
  "TrimLeftFunc s f =
     (if s = [] then []
      else if f (fst (DecodeRune s)) then TrimLeftFunc (drop (snd (DecodeRune s)) s) f
      else s)"
  by pat_completeness auto
termination
  by (relation "measure (\<lambda>(s, f). length s)") (auto simp: DecodeRune_width_pos)

function TrimRightFunc :: "string \<Rightarrow> (nat \<Rightarrow> bool) \<Rightarrow> string" where
  "TrimRightFunc s f =
     (if s = [] then []
      else if f (fst (DecodeLastRune s))
           then TrimRightFunc (take (length s - snd (DecodeLastRune s)) s) f
      else s)"
  by pat_completeness auto
termination
  by (relation "measure (\<lambda>(s, f). length s)") (auto simp: DecodeLastRune_width_pos)

declare TrimLeftFunc.simps [simp del] TrimRightFunc.simps [simp del]

definition TrimSpace :: "string \<Rightarrow> string" where
  "TrimSpace s = TrimRightFunc (TrimLeftFunc s IsSpace) IsSpace"

text \<open>
  \<open>strings.Index\<close>: the position of the first occurrence of \<open>substr\<close> in \<open>s\<close>;
  \<open>None\<close> stands for the source's \<open>-1\<close>.  \<open>strings.Contains\<close> is
  \<open>Index(s, substr) >= 0\<close>.
\<close>

fun Index :: "string \<Rightarrow> string \<Rightarrow> nat option" where
  "Index [] substr = (if substr = [] then Some 0 else None)"
| "Index (c # cs) substr =
     (if prefix substr (c # cs) then Some 0 else map_option Suc (Index cs substr))"

definition Contains :: "string \<Rightarrow> string \<Rightarrow> bool" where
  "Contains s substr = (Index s substr \<noteq> None)"

lemma Index_bound: "Index s substr = Some j \<Longrightarrow> j + length substr \<le> length s"
proof (induction s arbitrary: j)
  case Nil
  then show ?case by (simp split: if_splits)
next
  case (Cons c cs)
  show ?case
  proof (cases "prefix substr (c # cs)")
    case True
    then show ?thesis using Cons.prems prefix_length_le [of substr "c # cs"] by simp
  next
    case False
    then obtain k where "Index cs substr = Some k" "j = Suc k"
      using Cons.prems by auto
    then show ?thesis using Cons.IH by fastforce
  qed
qed

text \<open>
  \<open>strings.Replace(s, old, new, n)\<close>: a copy of \<open>s\<close> with the first \<open>n\<close>
  non-overlapping occurrences of \<open>old\<close> replaced by \<open>new\<close>, all of them when
  \<open>n < 0\<close>.  The source counts the occurrences and then cuts at \<open>Index\<close> that many
  times; \<open>Replace_from\<close> cuts at \<open>Index\<close> until \<open>n\<close> replacements are made or no
  occurrence is left.  An empty \<open>old\<close> matches before each code point and at the end
  (\<open>Replace_empty\<close>).
\<close>

function Replace_from :: "string \<Rightarrow> string \<Rightarrow> string \<Rightarrow> int \<Rightarrow> string" where
  "Replace_from s old new n =
     (if n = 0 \<or> old = [] then s
      else (case Index s old of
              None \<Rightarrow> s
            | Some j \<Rightarrow> take j s @ new @ Replace_from (drop (j + length old) s) old new (n - 1)))"
  by pat_completeness auto
termination
proof (relation "measure (\<lambda>(s, old, new, n). length s)")
  show "wf (measure (\<lambda>(s, old, new, n). length s))" by simp
next
  fix s old :: string and new :: string and n :: int and j
  assume "\<not> (n = 0 \<or> old = [])" and "Index s old = Some j"
  then have "j + length old \<le> length s" and "0 < length old"
    using Index_bound by auto
  then have "length s - (j + length old) < length s"
    by linarith
  then show "((drop (j + length old) s, old, new, n - 1), (s, old, new, n))
               \<in> measure (\<lambda>(s, old, new, n). length s)"
    by simp
qed

declare Replace_from.simps [simp del]

fun Replace_empty :: "nat \<Rightarrow> string \<Rightarrow> string \<Rightarrow> string" where
  "Replace_empty 0 s new = s"
| "Replace_empty (Suc k) s new =
     (if s = [] then []
      else take (snd (DecodeRune s)) s @ new @ Replace_empty k (drop (snd (DecodeRune s)) s) new)"

definition Replace :: "string \<Rightarrow> string \<Rightarrow> string \<Rightarrow> int \<Rightarrow> string" where
  "Replace s old new n =
     (if old = new \<or> n = 0 then s
      else if old = [] then new @ Replace_empty (if n < 0 then length s else nat n - 1) s new
      else Replace_from s old new n)"

subsection \<open>The regular expression\<close>

text \<open>
  \<open>emptyElementRE = regexp.MustCompile(`></[A-Za-z]+>`)\<close>.  A match at the start of
  \<open>s\<close> is the three bytes \<open>></\<close>, then the longest run of ASCII letters, which must
  not be empty, then \<open>>\<close> (the run is followed by a byte that is no letter, so no
  shorter run can match either).  \<open>emptyElementRE_match\<close> returns what follows the
  match.
\<close>

definition is_letter :: "char \<Rightarrow> bool" where
  "is_letter c = ((65 \<le> byte c \<and> byte c \<le> 90) \<or> (97 \<le> byte c \<and> byte c \<le> 122))"

fun emptyElementRE_match :: "string \<Rightarrow> string option" where
  "emptyElementRE_match (c1 # c2 # c3 # r) =
     (if c1 = CHR ''>'' \<and> c2 = CHR ''<'' \<and> c3 = CHR ''/''
      then (case dropWhile is_letter r of
              [] \<Rightarrow> None
            | c # rest \<Rightarrow>
                if takeWhile is_letter r \<noteq> [] \<and> c = CHR ''>'' then Some rest else None)
      else None)"
| "emptyElementRE_match _ = None"

lemma emptyElementRE_match_shorter:
  "emptyElementRE_match s = Some rest \<Longrightarrow> length rest < length s"
proof (induction s rule: emptyElementRE_match.induct)
  case (1 c1 c2 c3 r)
  have "length (dropWhile is_letter r) \<le> length r"
    by (rule length_dropWhile_le)
  then show ?case
    using "1.prems" by (auto split: if_splits list.splits)
qed simp_all

text \<open>
  \<open>emptyElementRE.MatchString(s)\<close>: is there a match anywhere in \<open>s\<close>.
\<close>

fun emptyElementRE_MatchString :: "string \<Rightarrow> bool" where
  "emptyElementRE_MatchString [] = False"
| "emptyElementRE_MatchString (c # cs) =
     (emptyElementRE_match (c # cs) \<noteq> None \<or> emptyElementRE_MatchString cs)"

text \<open>
  \<open>emptyElementRE.ReplaceAllString(s, repl)\<close>: the matches are found from left to
  right, each search starting where the match before it ended, and every match is
  replaced by \<open>repl\<close> (the source's \<open>/>\<close> has no \<open>$\<close>, so it is taken literally).
\<close>

function emptyElementRE_ReplaceAllString :: "string \<Rightarrow> string \<Rightarrow> string" where
  "emptyElementRE_ReplaceAllString s repl =
     (case s of
        [] \<Rightarrow> []
      | c # cs \<Rightarrow>
         (case emptyElementRE_match s of
            Some rest \<Rightarrow> repl @ emptyElementRE_ReplaceAllString rest repl
          | None \<Rightarrow> c # emptyElementRE_ReplaceAllString cs repl))"
  by pat_completeness auto
termination
  by (relation "measure (\<lambda>(s, repl). length s)")
     (auto dest: emptyElementRE_match_shorter)

declare emptyElementRE_ReplaceAllString.simps [simp del]

subsection \<open>Reading lines from a buffer\<close>

text \<open>
  \<open>bytes.Buffer.ReadString(delim)\<close> returns the bytes up to and including the first
  \<open>delim\<close>; when there is none it returns what is left together with \<open>io.EOF\<close>.  The
  model returns the string, the rest of the buffer and whether the error is
  \<open>io.EOF\<close> (the buffer has no other error).
\<close>

definition ReadString :: "string \<Rightarrow> char \<Rightarrow> string \<times> string \<times> bool" where
  "ReadString x delim =
     (case dropWhile (\<lambda>c. c \<noteq> delim) x of
        [] \<Rightarrow> (x, [], True)
      | d # rest \<Rightarrow> (takeWhile (\<lambda>c. c \<noteq> delim) x @ [d], rest, False))"

lemma ReadString_shorter:
  "ReadString x delim = (s, rest, False) \<Longrightarrow> length rest < length x"
proof -
  assume r: "ReadString x delim = (s, rest, False)"
  have "length (dropWhile (\<lambda>c. c \<noteq> delim) x) \<le> length x"
    by (rule length_dropWhile_le)
  then show ?thesis
    using r by (auto simp: ReadString_def split: list.splits)
qed

section \<open>ConditionalUint\<close>

text \<open>
  \<open>xml.Name\<close> and \<open>xml.Attr\<close>.  Field names carry the name of their struct, since
  several structs of the package share field names.
\<close>

record Name =
  Name_Space :: string
  Name_Local :: string

record Attr =
  Attr_Name :: Name
  Attr_Value :: string

text \<open>
  \<open>type ConditionalUint struct { u *uint64; b *bool }\<close>: a nil pointer is \<open>None\<close>.
\<close>

record ConditionalUint =
  cu_u :: "64 word option"
  cu_b :: "bool option"

definition zero_Name :: Name where
  "zero_Name = \<lparr>Name_Space = [], Name_Local = []\<rparr>"

definition zero_Attr :: Attr where
  "zero_Attr = \<lparr>Attr_Name = zero_Name, Attr_Value = []\<rparr>"

definition zero_ConditionalUint :: ConditionalUint where
  "zero_ConditionalUint = \<lparr>cu_u = None, cu_b = None\<rparr>"

text \<open>
  The only error \<open>UnmarshalXMLAttr\<close> returns is
  \<open>fmt.Errorf("ConditionalUint: can't UnmarshalXMLAttr %#v", attr)\<close>: a message that
  prints the whole attribute, name and raw value (the specification calls it
  MalformedUnion).
\<close>

datatype error = CantUnmarshalXMLAttr Attr

text \<open>
  \<open>MarshalXMLAttr\<close> returns a nil error on each of its three paths, so the model
  returns the attribute alone.  The zero \<open>xml.Attr\<close> of the last path has an empty
  local name, which makes the encoder write no attribute.
\<close>

definition MarshalXMLAttr :: "ConditionalUint \<Rightarrow> Name \<Rightarrow> Attr" where
  "MarshalXMLAttr c name =
     (case cu_u c of
        Some v \<Rightarrow> \<lparr>Attr_Name = name, Attr_Value = FormatUint v\<rparr>
      | None \<Rightarrow>
         (case cu_b c of
            Some v \<Rightarrow> \<lparr>Attr_Name = name, Attr_Value = FormatBool v\<rparr>
          | None \<Rightarrow> zero_Attr))"

text \<open>
  \<open>UnmarshalXMLAttr\<close> has a pointer receiver: it assigns one field of \<open>c\<close> and
  leaves the other as it was.  The model takes the receiver and returns it updated.
\<close>

definition UnmarshalXMLAttr :: "ConditionalUint \<Rightarrow> Attr \<Rightarrow> error + ConditionalUint" where
  "UnmarshalXMLAttr c attr =
     (case ParseUint (Attr_Value attr) of
        Inr v \<Rightarrow> Inr (c\<lparr>cu_u := Some v\<rparr>)
      | Inl _ \<Rightarrow>
         (case ParseBool (Attr_Value attr) of
            Inr v \<Rightarrow> Inr (c\<lparr>cu_b := Some v\<rparr>)
          | Inl _ \<Rightarrow> Inl (CantUnmarshalXMLAttr attr)))"

section \<open>The document tree\<close>

text \<open>
  The structs of \<open>mpd.go\<close>, one record each, fields in the order of the source.  A
  pointer field is an \<open>option\<close> (\<open>None\<close> is nil), a slice is a list, \<open>uint64\<close>
  and \<open>int64\<close> are 64-bit words, \<open>uint32\<close> is a 32-bit word.
\<close>

record SegmentTimelineSegment =
  S_T :: "64 word option"
  S_D :: "64 word"
  S_R :: "64 word option"

record SegmentTimeline =
  SegmentTimeline_Segments :: "SegmentTimelineSegment list"

record SegmentTemplate =
  SegmentTemplate_Timescale :: "64 word option"
  SegmentTemplate_Media :: "string option"
  SegmentTemplate_Initialization :: "string option"
  SegmentTemplate_StartNumber :: "64 word option"
  SegmentTemplate_PresentationTimeOffset :: "64 word option"
  SegmentTemplate_Duration :: "32 word option"
  SegmentTemplate_SegmentTimeline :: "SegmentTimeline list"

record Pssh =
  Pssh_Value :: "string option"
  Pssh_Cenc :: "string option"

record Pro =
  Pro_Value :: "string option"
  Pro_Mspr :: "string option"

record ContentProtection =
  ContentProtection_SchemeIDURI :: "string option"
  ContentProtection_Value :: "string option"
  ContentProtection_DefaultKID :: "string option"
  ContentProtection_Cenc :: "string option"
  ContentProtection_Pssh :: "Pssh option"
  ContentProtection_Pro :: "Pro option"

record Event =
  Event_XMLName :: Name
  Event_ID :: "string option"
  Event_PresentationTime :: "64 word option"
  Event_Duration :: "64 word option"

record EventStream =
  EventStream_XMLName :: Name
  EventStream_SchemeIDURI :: "string option"
  EventStream_Value :: "string option"
  EventStream_Timescale :: "64 word option"
  EventStream_Events :: "Event list"

record ProgramEventStream =
  ProgramEventStream_XMLName :: Name
  ProgramEventStream_SchemeIDURI :: "string option"
  ProgramEventStream_Value :: "string option"
  ProgramEventStream_Timescale :: "64 word option"
  ProgramEventStream_Events :: "Event list"

record AudioChannelConfiguration =
  AudioChannelConfiguration_SchemeIDURI :: "string option"
  AudioChannelConfiguration_Value :: "string option"

record Representation =
  Representation_ID :: "string option"
  Representation_Width :: "64 word option"
  Representation_Height :: "64 word option"
  Representation_FrameRate :: "string option"
  Representation_Bandwidth :: "64 word option"
  Representation_AudioSamplingRate :: "string option"
  Representation_Codecs :: "string option"
  Representation_ContentProtections :: "ContentProtection list"
  Representation_SegmentTemplate :: "SegmentTemplate option"
  Representation_ScanType :: "string option"
  Representation_AudioChannelConfiguration :: "AudioChannelConfiguration option"

record AdaptationSet =
  AdaptationSet_MimeType :: string
  AdaptationSet_SegmentAlignment :: ConditionalUint
  AdaptationSet_SubsegmentAlignment :: ConditionalUint
  AdaptationSet_StartWithSAP :: "64 word option"
  AdaptationSet_SubsegmentStartsWithSAP :: "64 word option"
  AdaptationSet_BitstreamSwitching :: "bool option"
  AdaptationSet_Lang :: "string option"
  AdaptationSet_ContentProtections :: "ContentProtection list"
  AdaptationSet_Representations :: "Representation list"
  AdaptationSet_FrameRate :: "string option"
  AdaptationSet_SegmentTemplate :: "SegmentTemplate option"

record Descriptor =
  Descriptor_SchemeIDURI :: "string option"
  Descriptor_Value :: "string option"
  Descriptor_ID :: "string option"

record Period =
  Period_Start :: "string option"
  Period_ID :: "string option"
  Period_Duration :: "string option"
  Period_SupplementalProperty :: "Descriptor option"
  Period_BaseURL :: string
  Period_EventStreams :: "EventStream list"
  Period_ProgramEventStreams :: "ProgramEventStream list"
  Period_AdaptationSets :: "AdaptationSet option list"

record MPD =
  MPD_XMLNS :: "string option"
  MPD_Cenc :: "string option"
  MPD_Mspr :: "string option"
  MPD_Type :: "string option"
  MPD_MinimumUpdatePeriod :: "string option"
  MPD_AvailabilityStartTime :: "string option"
  MPD_MediaPresentationDuration :: "string option"
  MPD_MinBufferTime :: "string option"
  MPD_SuggestedPresentationDelay :: "string option"
  MPD_TimeShiftBufferDepth :: "string option"
  MPD_PublishTime :: "string option"
  MPD_Profiles :: string
  MPD_BaseURL :: string
  MPD_Periods :: "Period option list"

section \<open>The generic serializer\<close>

text \<open>
  \<open>Encode\<close> hands the document to \<open>encoding/xml\<close> with \<open>Indent("", "  ")\<close>.  The
  encoder turns each struct into a start element, whose attributes are the fields
  tagged \<open>attr\<close> in field order, followed by the other fields in field order (character
  data or child elements) and the end element.  The model has the same two stages: the
  structs become a tree of elements, and a printer writes the tree.
\<close>

subsection \<open>Escaping\<close>

text \<open>
  The encoder writes attribute values and text through one escaping routine: the five
  markup characters, tab, newline and carriage return become character references, a
  code point outside the XML character range (and any byte that is not valid UTF-8)
  becomes U+FFFD, everything else is copied.
\<close>

definition isInCharacterRange :: "nat \<Rightarrow> bool" where
  "isInCharacterRange r =
     (r = 0x09 \<or> r = 0x0A \<or> r = 0x0D \<or> (0x20 \<le> r \<and> r \<le> 0xD7FF)
      \<or> (0xE000 \<le> r \<and> r \<le> 0xFFFD) \<or> (0x10000 \<le> r \<and> r \<le> 0x10FFFF))"

definition escape_rune :: "nat \<Rightarrow> nat \<Rightarrow> string \<Rightarrow> string" where
  \<open>escape_rune r width bytes =
     (if r = 0x22 then ''&#34;''
      else if r = 0x27 then ''&#39;''
      else if r = 0x26 then ''&amp;''
      else if r = 0x3C then ''&lt;''
      else if r = 0x3E then ''&gt;''
      else if r = 0x09 then ''&#x9;''
      else if r = 0x0A then ''&#xA;''
      else if r = 0x0D then ''&#xD;''
      else if \<not> isInCharacterRange r \<or> (r = 0xFFFD \<and> width = 1)
           then [CHR 0xEF, CHR 0xBF, CHR 0xBD]
      else bytes)\<close>

function EscapeString :: "string \<Rightarrow> string" where
  "EscapeString s =
     (if s = [] then []
      else escape_rune (fst (DecodeRune s)) (snd (DecodeRune s)) (take (snd (DecodeRune s)) s)
           @ EscapeString (drop (snd (DecodeRune s)) s))"
  by pat_completeness auto
termination
  by (relation "measure length") (auto simp: DecodeRune_width_pos)

declare EscapeString.simps [simp del]

subsection \<open>Numbers as text\<close>

text \<open>
  \<open>strconv.FormatInt(i, 10)\<close> for an \<open>int64\<close>: a minus sign before the digits of a
  negative value.
\<close>

definition FormatInt :: "64 word \<Rightarrow> string" where
  "FormatInt v = (if sint v < 0 then CHR ''-'' # FormatNat (nat (- sint v)) else FormatNat (nat (sint v)))"

subsection \<open>The printer\<close>

datatype xml_node =
  Element string "(string \<times> string) list" "xml_node list"
| CharData string

text \<open>
  No field of the package has a namespace in its tag, and \<open>MarshalXMLAttr\<close> returns
  the name it was given, so an attribute of the tree is a local name and a value, and
  an element has a local name only.

  The printer state: the bytes written, and the three fields that \<open>writeIndent\<close> of
  the encoder keeps (\<open>prefix\<close> is empty and \<open>indent\<close> is two spaces).
\<close>

record printer =
  buf :: string
  depth :: nat
  indentedIn :: bool
  putNewline :: bool

definition new_printer :: printer where
  "new_printer = \<lparr>buf = [], depth = 0, indentedIn = False, putNewline = False\<rparr>"

definition indent_text :: "nat \<Rightarrow> string" where
  "indent_text n = concat (replicate n ''  '')"

definition writeIndent :: "int \<Rightarrow> printer \<Rightarrow> printer" where
  "writeIndent depthDelta p =
     (let p1 = (if depthDelta < 0 then p\<lparr>depth := depth p - 1\<rparr> else p) in
      if depthDelta < 0 \<and> indentedIn p1 then p1\<lparr>indentedIn := False\<rparr>
      else
        (let p2 = (if depthDelta < 0 then p1\<lparr>indentedIn := False\<rparr> else p1);
             p3 = (if putNewline p2 then p2\<lparr>buf := buf p2 @ [CHR 0x0A]\<rparr>
                   else p2\<lparr>putNewline := True\<rparr>);
             p4 = p3\<lparr>buf := buf p3 @ indent_text (depth p3)\<rparr>
         in if 0 < depthDelta then p4\<lparr>depth := depth p4 + 1, indentedIn := True\<rparr> else p4))"

definition attr_text :: "string \<times> string \<Rightarrow> string" where
  \<open>attr_text a = '' '' @ fst a @ ''="'' @ EscapeString (snd a) @ ''"''\<close>

definition writeStart :: "string \<Rightarrow> (string \<times> string) list \<Rightarrow> printer \<Rightarrow> printer" where
  \<open>writeStart name attrs p =
     (let p1 = writeIndent 1 p
      in p1\<lparr>buf := buf p1 @ ''<'' @ name @ concat (map attr_text attrs) @ ''>''\<rparr>)\<close>

definition writeEnd :: "string \<Rightarrow> printer \<Rightarrow> printer" where
  \<open>writeEnd name p =
     (let p1 = writeIndent (- 1) p
      in p1\<lparr>buf := buf p1 @ ''</'' @ name @ ''>''\<rparr>)\<close>

fun print_node :: "xml_node \<Rightarrow> printer \<Rightarrow> printer" where
  "print_node (CharData t) p = p\<lparr>buf := buf p @ EscapeString t\<rparr>"
| "print_node (Element name attrs kids) p =
     writeEnd name (fold print_node kids (writeStart name attrs p))"

subsection \<open>Fields\<close>

text \<open>
  How one field becomes attributes or nodes.  A nil pointer gives nothing, with or
  without \<open>omitempty\<close>; a plain string attribute is always written; a plain string
  element with \<open>omitempty\<close> is left out when the string is empty.  A
  \<open>ConditionalUint\<close> attribute is what \<open>MarshalXMLAttr\<close> returns, and is left out
  when the returned attribute has an empty local name.
\<close>

definition attr_string :: "string \<Rightarrow> string \<Rightarrow> (string \<times> string) list" where
  "attr_string name v = [(name, v)]"

definition attr_string_ptr :: "string \<Rightarrow> string option \<Rightarrow> (string \<times> string) list" where
  "attr_string_ptr name v = (case v of None \<Rightarrow> [] | Some x \<Rightarrow> [(name, x)])"

definition attr_uint64 :: "string \<Rightarrow> 64 word \<Rightarrow> (string \<times> string) list" where
  "attr_uint64 name v = [(name, FormatUint v)]"

definition attr_uint64_ptr :: "string \<Rightarrow> 64 word option \<Rightarrow> (string \<times> string) list" where
  "attr_uint64_ptr name v = (case v of None \<Rightarrow> [] | Some x \<Rightarrow> [(name, FormatUint x)])"

definition attr_uint32_ptr :: "string \<Rightarrow> 32 word option \<Rightarrow> (string \<times> string) list" where
  "attr_uint32_ptr name v = (case v of None \<Rightarrow> [] | Some x \<Rightarrow> [(name, FormatNat (unat x))])"

definition attr_int64_ptr :: "string \<Rightarrow> 64 word option \<Rightarrow> (string \<times> string) list" where
  "attr_int64_ptr name v = (case v of None \<Rightarrow> [] | Some x \<Rightarrow> [(name, FormatInt x)])"

definition attr_bool_ptr :: "string \<Rightarrow> bool option \<Rightarrow> (string \<times> string) list" where
  "attr_bool_ptr name v = (case v of None \<Rightarrow> [] | Some x \<Rightarrow> [(name, FormatBool x)])"

definition attr_ConditionalUint :: "string \<Rightarrow> ConditionalUint \<Rightarrow> (string \<times> string) list" where
  "attr_ConditionalUint name c =
     (let a = MarshalXMLAttr c \<lparr>Name_Space = [], Name_Local = name\<rparr>
      in if Name_Local (Attr_Name a) \<noteq> [] then [(Name_Local (Attr_Name a), Attr_Value a)] else [])"

definition elem_string_omitempty :: "string \<Rightarrow> string \<Rightarrow> xml_node list" where
  "elem_string_omitempty name v = (if v = [] then [] else [Element name [] [CharData v]])"

definition chardata_string_ptr :: "string option \<Rightarrow> xml_node list" where
  "chardata_string_ptr v = (case v of None \<Rightarrow> [] | Some x \<Rightarrow> [CharData x])"

definition elem_ptr :: "('a \<Rightarrow> xml_node) \<Rightarrow> 'a option \<Rightarrow> xml_node list" where
  "elem_ptr f v = (case v of None \<Rightarrow> [] | Some x \<Rightarrow> [f x])"

subsection \<open>Structs\<close>

definition SegmentTimelineSegment_node :: "SegmentTimelineSegment \<Rightarrow> xml_node" where
  "SegmentTimelineSegment_node x =
     Element ''S''
       (attr_uint64_ptr ''t'' (S_T x) @ attr_uint64 ''d'' (S_D x) @ attr_int64_ptr ''r'' (S_R x))
       []"

definition SegmentTimeline_node :: "SegmentTimeline \<Rightarrow> xml_node" where
  "SegmentTimeline_node x =
     Element ''SegmentTimeline'' []
       (map SegmentTimelineSegment_node (SegmentTimeline_Segments x))"

definition SegmentTemplate_node :: "SegmentTemplate \<Rightarrow> xml_node" where
  "SegmentTemplate_node x =
     Element ''SegmentTemplate''
       (attr_uint64_ptr ''timescale'' (SegmentTemplate_Timescale x)
        @ attr_string_ptr ''media'' (SegmentTemplate_Media x)
        @ attr_string_ptr ''initialization'' (SegmentTemplate_Initialization x)
        @ attr_uint64_ptr ''startNumber'' (SegmentTemplate_StartNumber x)
        @ attr_uint64_ptr ''presentationTimeOffset'' (SegmentTemplate_PresentationTimeOffset x)
        @ attr_uint32_ptr ''duration'' (SegmentTemplate_Duration x))
       (map SegmentTimeline_node (SegmentTemplate_SegmentTimeline x))"

definition Pssh_node :: "Pssh \<Rightarrow> xml_node" where
  "Pssh_node x =
     Element ''pssh'' (attr_string_ptr ''cenc'' (Pssh_Cenc x)) (chardata_string_ptr (Pssh_Value x))"

definition Pro_node :: "Pro \<Rightarrow> xml_node" where
  "Pro_node x =
     Element ''pro'' (attr_string_ptr ''mspr'' (Pro_Mspr x)) (chardata_string_ptr (Pro_Value x))"

definition ContentProtection_node :: "ContentProtection \<Rightarrow> xml_node" where
  "ContentProtection_node x =
     Element ''ContentProtection''
       (attr_string_ptr ''schemeIdUri'' (ContentProtection_SchemeIDURI x)
        @ attr_string_ptr ''value'' (ContentProtection_Value x)
        @ attr_string_ptr ''default_KID'' (ContentProtection_DefaultKID x)
        @ attr_string_ptr ''cenc'' (ContentProtection_Cenc x))
       (elem_ptr Pssh_node (ContentProtection_Pssh x)
        @ elem_ptr Pro_node (ContentProtection_Pro x))"

definition Event_node :: "Event \<Rightarrow> xml_node" where
  "Event_node x =
     Element ''Event''
       (attr_string_ptr ''id'' (Event_ID x)
        @ attr_int64_ptr ''presentationTime'' (Event_PresentationTime x)
        @ attr_int64_ptr ''duration'' (Event_Duration x))
       []"

definition EventStream_node :: "EventStream \<Rightarrow> xml_node" where
  "EventStream_node x =
     Element ''EventStream''
       (attr_string_ptr ''schemeIdUri'' (EventStream_SchemeIDURI x)
        @ attr_string_ptr ''value'' (EventStream_Value x)
        @ attr_int64_ptr ''timescale'' (EventStream_Timescale x))
       (map Event_node (EventStream_Events x))"

definition ProgramEventStream_node :: "ProgramEventStream \<Rightarrow> xml_node" where
  "ProgramEventStream_node x =
     Element ''ProgramEventStream''
       (attr_string_ptr ''schemeIdUri'' (ProgramEventStream_SchemeIDURI x)
        @ attr_string_ptr ''value'' (ProgramEventStream_Value x)
        @ attr_int64_ptr ''timescale'' (ProgramEventStream_Timescale x))
       (map Event_node (ProgramEventStream_Events x))"

definition AudioChannelConfiguration_node :: "AudioChannelConfiguration \<Rightarrow> xml_node" where
  "AudioChannelConfiguration_node x =
     Element ''AudioChannelConfiguration''
       (attr_string_ptr ''schemeIdUri'' (AudioChannelConfiguration_SchemeIDURI x)
        @ attr_string_ptr ''value'' (AudioChannelConfiguration_Value x))
       []"

definition Representation_node :: "Representation \<Rightarrow> xml_node" where
  "Representation_node x =
     Element ''Representation''
       (attr_string_ptr ''id'' (Representation_ID x)
        @ attr_uint64_ptr ''width'' (Representation_Width x)
        @ attr_uint64_ptr ''height'' (Representation_Height x)
        @ attr_string_ptr ''frameRate'' (Representation_FrameRate x)
        @ attr_uint64_ptr ''bandwidth'' (Representation_Bandwidth x)
        @ attr_string_ptr ''audioSamplingRate'' (Representation_AudioSamplingRate x)
        @ attr_string_ptr ''codecs'' (Representation_Codecs x)
        @ attr_string_ptr ''scanType'' (Representation_ScanType x))
       (map ContentProtection_node (Representation_ContentProtections x)
        @ elem_ptr SegmentTemplate_node (Representation_SegmentTemplate x)
        @ elem_ptr AudioChannelConfiguration_node (Representation_AudioChannelConfiguration x))"

definition AdaptationSet_node :: "AdaptationSet \<Rightarrow> xml_node" where
  "AdaptationSet_node x =
     Element ''AdaptationSet''
       (attr_string ''mimeType'' (AdaptationSet_MimeType x)
        @ attr_ConditionalUint ''segmentAlignment'' (AdaptationSet_SegmentAlignment x)
        @ attr_ConditionalUint ''subsegmentAlignment'' (AdaptationSet_SubsegmentAlignment x)
        @ attr_uint64_ptr ''startWithSAP'' (AdaptationSet_StartWithSAP x)
        @ attr_uint64_ptr ''subsegmentStartsWithSAP'' (AdaptationSet_SubsegmentStartsWithSAP x)
        @ attr_bool_ptr ''bitstreamSwitching'' (AdaptationSet_BitstreamSwitching x)
        @ attr_string_ptr ''lang'' (AdaptationSet_Lang x)
        @ attr_string_ptr ''frameRate'' (AdaptationSet_FrameRate x))
       (map ContentProtection_node (AdaptationSet_ContentProtections x)
        @ map Representation_node (AdaptationSet_Representations x)
        @ elem_ptr SegmentTemplate_node (AdaptationSet_SegmentTemplate x))"

definition Descriptor_node :: "string \<Rightarrow> Descriptor \<Rightarrow> xml_node" where
  "Descriptor_node name x =
     Element name
       (attr_string_ptr ''schemeIdUri'' (Descriptor_SchemeIDURI x)
        @ attr_string_ptr ''value'' (Descriptor_Value x)
        @ attr_string_ptr ''id'' (Descriptor_ID x))
       []"

definition Period_node :: "Period \<Rightarrow> xml_node" where
  "Period_node x =
     Element ''Period''
       (attr_string_ptr ''start'' (Period_Start x)
        @ attr_string_ptr ''id'' (Period_ID x)
        @ attr_string_ptr ''duration'' (Period_Duration x))
       (elem_ptr (Descriptor_node ''SupplementalProperty'') (Period_SupplementalProperty x)
        @ elem_string_omitempty ''BaseURL'' (Period_BaseURL x)
        @ map EventStream_node (Period_EventStreams x)
        @ map ProgramEventStream_node (Period_ProgramEventStreams x)
        @ concat (map (elem_ptr AdaptationSet_node) (Period_AdaptationSets x)))"

definition MPD_node :: "MPD \<Rightarrow> xml_node" where
  "MPD_node m =
     Element ''MPD''
       (attr_string_ptr ''xmlns'' (MPD_XMLNS m)
        @ attr_string_ptr ''cenc'' (MPD_Cenc m)
        @ attr_string_ptr ''mspr'' (MPD_Mspr m)
        @ attr_string_ptr ''type'' (MPD_Type m)
        @ attr_string_ptr ''minimumUpdatePeriod'' (MPD_MinimumUpdatePeriod m)
        @ attr_string_ptr ''availabilityStartTime'' (MPD_AvailabilityStartTime m)
        @ attr_string_ptr ''mediaPresentationDuration'' (MPD_MediaPresentationDuration m)
        @ attr_string_ptr ''minBufferTime'' (MPD_MinBufferTime m)
        @ attr_string_ptr ''suggestedPresentationDelay'' (MPD_SuggestedPresentationDelay m)
        @ attr_string_ptr ''timeShiftBufferDepth'' (MPD_TimeShiftBufferDepth m)
        @ attr_string_ptr ''publishTime'' (MPD_PublishTime m)
        @ attr_string ''profiles'' (MPD_Profiles m))
       (elem_string_omitempty ''BaseURL'' (MPD_BaseURL m)
        @ concat (map (elem_ptr Period_node) (MPD_Periods m)))"

text \<open>
  \<open>e.Encode(m)\<close> on a fresh encoder.  None of the types has a marshalling method
  that can fail (\<open>MarshalXMLAttr\<close> always returns a nil error) and the writer is a
  buffer in memory, so the error of the source is always nil.
\<close>

definition xml_Encode :: "MPD \<Rightarrow> error + string" where
  "xml_Encode m = Inr (buf (print_node (MPD_node m) new_printer))"

section \<open>The rewrite pass of Encode\<close>

text \<open>
  The body of the \<open>for\<close> loop of \<open>Encode\<close> rewrites one line \<open>s\<close> in six steps,
  each working on the result of the step before it.  Every step is a function of its
  own here, in the order of the source.
\<close>

definition rule_collapse :: "string \<Rightarrow> string" where
  \<open>rule_collapse s = emptyElementRE_ReplaceAllString s ''/>''\<close>

definition rule_MPD :: "string \<Rightarrow> string" where
  \<open>rule_MPD s =
     (if Contains s ''<MPD''
      then Replace (Replace s ''cenc'' ''xmlns:cenc'' 1) ''mspr'' ''xmlns:mspr'' 1
      else s)\<close>

definition rule_pssh :: "string \<Rightarrow> string" where
  \<open>rule_pssh s =
     (if Contains s ''<pssh''
      then Replace (Replace s ''cenc'' ''xmlns:cenc'' 1) ''pssh'' ''cenc:pssh'' (- 1)
      else s)\<close>

definition rule_pro :: "string \<Rightarrow> string" where
  \<open>rule_pro s =
     (if Contains s ''<pro''
      then Replace (Replace s ''mspr'' ''xmlns:mspr'' 1) ''pro'' ''mspr:pro'' (- 1)
      else s)\<close>

definition rule_default_KID :: "string \<Rightarrow> string" where
  \<open>rule_default_KID s =
     (if Contains s ''default_KID''
      then Replace (Replace s ''default_KID'' ''cenc:default_KID'' (- 1))
             ''cenc='' ''xmlns:cenc='' (- 1)
      else s)\<close>

definition rule_SegmentTimeline :: "string \<Rightarrow> string" where
  \<open>rule_SegmentTimeline s = (if TrimSpace s = ''<SegmentTimeline/>'' then [] else s)\<close>

definition rewrite_line :: "string \<Rightarrow> string" where
  "rewrite_line s =
     rule_SegmentTimeline (rule_default_KID (rule_pro (rule_pssh (rule_MPD (rule_collapse s)))))"

text \<open>
  The loop itself: read up to the next newline, rewrite and append what was read unless
  it is empty, stop at \<open>io.EOF\<close>.  The result is what the loop appends to \<open>res\<close>.
\<close>

function rewrite_loop :: "string \<Rightarrow> string" where
  "rewrite_loop x =
     (case ReadString x (CHR 0x0A) of
        (s, rest, eof) \<Rightarrow>
          (if s \<noteq> [] then rewrite_line s else []) @ (if eof then [] else rewrite_loop rest))"
  by pat_completeness auto
termination
  by (relation "measure length") (auto dest: ReadString_shorter [OF sym])

declare rewrite_loop.simps [simp del]

definition xml_header :: string where
  \<open>xml_header = ''<?xml version="1.0" encoding="utf-8"?>''\<close>

text \<open>
  \<open>Encode\<close>: serialize, return the serializer's error if there is one, otherwise
  write the header line, the rewritten lines and a final newline.  (The \<open>err\<close>
  returned at the end is the one checked after serializing, which is nil there; the
  \<open>err\<close> of \<open>ReadString\<close> is a variable of the loop body.)
\<close>

definition Encode :: "MPD \<Rightarrow> error + string" where
  "Encode m =
     (case xml_Encode m of
        Inl err \<Rightarrow> Inl err
      | Inr x \<Rightarrow> Inr (xml_header @ [CHR 0x0A] @ rewrite_loop x @ [CHR 0x0A]))"

text \<open>
  \<open>Decode\<close> is \<open>xml.Unmarshal(b, m)\<close> and nothing else.  The parser of
  \<open>encoding/xml\<close> is a parameter of the model: given the bytes and the document to
  fill, it returns an error or the filled document.
\<close>

definition Decode :: "(string \<Rightarrow> MPD \<Rightarrow> 'e + MPD) \<Rightarrow> MPD \<Rightarrow> string \<Rightarrow> 'e + MPD" where
  "Decode xml_Unmarshal m b = xml_Unmarshal b m"

section \<open>Zero values\<close>

text \<open>The zero values of the structs: what a Go composite literal leaves unset.\<close>

definition zero_SegmentTemplate :: SegmentTemplate where
  "zero_SegmentTemplate =
     \<lparr>SegmentTemplate_Timescale = None, SegmentTemplate_Media = None,
      SegmentTemplate_Initialization = None, SegmentTemplate_StartNumber = None,
      SegmentTemplate_PresentationTimeOffset = None, SegmentTemplate_Duration = None,
      SegmentTemplate_SegmentTimeline = []\<rparr>"

definition zero_Representation :: Representation where
  "zero_Representation =
     \<lparr>Representation_ID = None, Representation_Width = None, Representation_Height = None,
      Representation_FrameRate = None, Representation_Bandwidth = None,
      Representation_AudioSamplingRate = None, Representation_Codecs = None,
      Representation_ContentProtections = [], Representation_SegmentTemplate = None,
      Representation_ScanType = None, Representation_AudioChannelConfiguration = None\<rparr>"

definition zero_AdaptationSet :: AdaptationSet where
  "zero_AdaptationSet =
     \<lparr>AdaptationSet_MimeType = [], AdaptationSet_SegmentAlignment = zero_ConditionalUint,
      AdaptationSet_SubsegmentAlignment = zero_ConditionalUint,
      AdaptationSet_StartWithSAP = None, AdaptationSet_SubsegmentStartsWithSAP = None,
      AdaptationSet_BitstreamSwitching = None, AdaptationSet_Lang = None,
      AdaptationSet_ContentProtections = [], AdaptationSet_Representations = [],
      AdaptationSet_FrameRate = None, AdaptationSet_SegmentTemplate = None\<rparr>"

definition zero_Period :: Period where
  "zero_Period =
     \<lparr>Period_Start = None, Period_ID = None, Period_Duration = None,
      Period_SupplementalProperty = None, Period_BaseURL = [], Period_EventStreams = [],
      Period_ProgramEventStreams = [], Period_AdaptationSets = []\<rparr>"

definition zero_MPD :: MPD where
  "zero_MPD =
     \<lparr>MPD_XMLNS = None, MPD_Cenc = None, MPD_Mspr = None, MPD_Type = None,
      MPD_MinimumUpdatePeriod = None, MPD_AvailabilityStartTime = None,
      MPD_MediaPresentationDuration = None, MPD_MinBufferTime = None,
      MPD_SuggestedPresentationDelay = None, MPD_TimeShiftBufferDepth = None,
      MPD_PublishTime = None, MPD_Profiles = [], MPD_BaseURL = [], MPD_Periods = []\<rparr>"

section \<open>Properties of ConditionalUint\<close>

subsection \<open>What ParseUint accepts\<close>

text \<open>
  A description of the accepted texts that does not follow the loop: the text is not
  empty, all of its bytes are decimal digits, and its value fits 64 bits.
\<close>

definition dec_value :: "string \<Rightarrow> nat" where
  "dec_value s = foldl (\<lambda>n c. n * 10 + digit_val c) 0 s"

definition is_uint64_text :: "string \<Rightarrow> bool" where
  "is_uint64_text s = (s \<noteq> [] \<and> list_all is_digit s \<and> dec_value s \<le> maxUint64)"

lemma foldl_dec_mono: "n \<le> foldl (\<lambda>n c. n * 10 + digit_val c) n s"
proof (induction s arbitrary: n)
  case Nil
  show ?case by simp
next
  case (Cons c cs)
  have "n \<le> n * 10 + digit_val c" by simp
  also have "\<dots> \<le> foldl (\<lambda>n c. n * 10 + digit_val c) (n * 10 + digit_val c) cs"
    by (rule Cons.IH)
  finally show ?case by simp
qed

lemma cutoff_times_10: "cutoff \<le> n \<Longrightarrow> maxUint64 < n * 10 + d"
  by (simp add: cutoff_def maxUint64_def)

lemma ParseUint_loop_Inr:
  "n \<le> maxUint64 \<Longrightarrow>
   ParseUint_loop n s = Inr m \<longleftrightarrow>
     list_all is_digit s \<and> foldl (\<lambda>n c. n * 10 + digit_val c) n s \<le> maxUint64 \<and>
     m = foldl (\<lambda>n c. n * 10 + digit_val c) n s"
proof (induction s arbitrary: n)
  case Nil
  then show ?case by auto
next
  case (Cons c cs)
  let ?n1 = "n * 10 + digit_val c"
  have mono: "?n1 \<le> foldl (\<lambda>n c. n * 10 + digit_val c) ?n1 cs"
    by (rule foldl_dec_mono)
  show ?case
  proof (cases "is_digit c")
    case False
    then show ?thesis by simp
  next
    case True
    show ?thesis
    proof (cases "maxUint64 < ?n1")
      case big: True
      then have "maxUint64 < foldl (\<lambda>n c. n * 10 + digit_val c) ?n1 cs"
        using mono by linarith
      then show ?thesis using True big by (auto simp: Let_def)
    next
      case small: False
      then have "\<not> cutoff \<le> n"
        using cutoff_times_10 [of n "digit_val c"] by auto
      moreover have "?n1 \<le> maxUint64" using small by simp
      ultimately show ?thesis
        using True small Cons.IH [of ?n1] by (simp add: Let_def)
    qed
  qed
qed

lemma ParseUint_Inr:
  "ParseUint s = Inr v \<longleftrightarrow> is_uint64_text s \<and> v = word_of_nat (dec_value s)"
proof -
  have loop: "ParseUint_loop 0 s = Inr m \<longleftrightarrow>
          list_all is_digit s \<and> dec_value s \<le> maxUint64 \<and> m = dec_value s" for m
    unfolding dec_value_def by (rule ParseUint_loop_Inr) simp
  show ?thesis
  proof (cases "ParseUint_loop 0 s")
    case (Inl e)
    then have "\<not> (list_all is_digit s \<and> dec_value s \<le> maxUint64)"
      using loop [of "dec_value s"] by simp
    then show ?thesis
      using Inl by (auto simp: ParseUint_def is_uint64_text_def)
  next
    case (Inr n)
    then have "list_all is_digit s \<and> dec_value s \<le> maxUint64 \<and> n = dec_value s"
      using loop [of n] by simp
    then show ?thesis
      using Inr by (auto simp: ParseUint_def is_uint64_text_def)
  qed
qed

lemma ParseUint_Inl: "(\<exists>e. ParseUint s = Inl e) \<longleftrightarrow> \<not> is_uint64_text s"
proof -
  have "(\<exists>e. ParseUint s = Inl e) \<longleftrightarrow> \<not> (\<exists>v. ParseUint s = Inr v)"
    by (cases "ParseUint s") auto
  then show ?thesis by (simp add: ParseUint_Inr)
qed

lemmas parse_simps =
  ParseUint_def ParseBool_def is_digit_def byte_def digit_val_def cutoff_def maxUint64_def

lemmas format_simps =
  FormatUint_def FormatBool_def FormatNat.simps digit_char_def

text \<open>
  C2.  Encoding the integer variant 42 gives the text "42" and decoding "42" gives the
  integer variant 42 with the boolean variant unset; encoding the boolean variant true
  gives "true" and decoding "true" gives the boolean variant; decoding "abc" fails with
  the error that carries the attribute.  The unsigned-integer parse comes first: "1",
  which \<open>ParseBool\<close> would read as true, decodes to the integer 1.  The attribute name
  is arbitrary.
\<close>

theorem ConditionalUint_text_examples:
  "MarshalXMLAttr \<lparr>cu_u = Some 42, cu_b = None\<rparr> name = \<lparr>Attr_Name = name, Attr_Value = ''42''\<rparr>
   \<and> UnmarshalXMLAttr zero_ConditionalUint \<lparr>Attr_Name = name, Attr_Value = ''42''\<rparr>
       = Inr \<lparr>cu_u = Some 42, cu_b = None\<rparr>
   \<and> MarshalXMLAttr \<lparr>cu_u = None, cu_b = Some True\<rparr> name
       = \<lparr>Attr_Name = name, Attr_Value = ''true''\<rparr>
   \<and> UnmarshalXMLAttr zero_ConditionalUint \<lparr>Attr_Name = name, Attr_Value = ''true''\<rparr>
       = Inr \<lparr>cu_u = None, cu_b = Some True\<rparr>
   \<and> UnmarshalXMLAttr zero_ConditionalUint \<lparr>Attr_Name = name, Attr_Value = ''abc''\<rparr>
       = Inl (CantUnmarshalXMLAttr \<lparr>Attr_Name = name, Attr_Value = ''abc''\<rparr>)
   \<and> ParseBool ''1'' = Inr True
   \<and> UnmarshalXMLAttr zero_ConditionalUint \<lparr>Attr_Name = name, Attr_Value = ''1''\<rparr>
       = Inr \<lparr>cu_u = Some 1, cu_b = None\<rparr>"
  by (simp add: MarshalXMLAttr_def UnmarshalXMLAttr_def zero_ConditionalUint_def
      parse_simps format_simps)

subsection \<open>Which texts decode, and to what\<close>

text \<open>
  The specification's reading of the boolean parse, in its own words: the text equals
  "true" or "false" when letter case is ignored.
\<close>

definition ascii_lower :: "char \<Rightarrow> char" where
  "ascii_lower c =
     (case map_of (zip ''ABCDEFGHIJKLMNOPQRSTUVWXYZ'' ''abcdefghijklmnopqrstuvwxyz'') c of
        Some l \<Rightarrow> l
      | None \<Rightarrow> c)"

definition spec_bool_literal :: "string \<Rightarrow> bool" where
  "spec_bool_literal s = (map ascii_lower s \<in> set [''true'', ''false''])"

text \<open>
  The boolean spellings that reach the boolean parse: \<open>ParseBool\<close> also accepts "1"
  and "0", but those are unsigned integers and never get there.
\<close>

definition true_literals :: "string list" where
  "true_literals = [''t'', ''T'', ''TRUE'', ''true'', ''True'']"

definition false_literals :: "string list" where
  "false_literals = [''f'', ''F'', ''FALSE'', ''false'', ''False'']"

lemma literals_not_uint:
  "s \<in> set true_literals \<union> set false_literals \<Longrightarrow> \<not> is_uint64_text s"
  by (auto simp: true_literals_def false_literals_def is_uint64_text_def is_digit_def byte_def)

lemma ParseBool_cases:
  "\<not> is_uint64_text s \<Longrightarrow>
   ParseBool s = (if s \<in> set true_literals then Inr True
                  else if s \<in> set false_literals then Inr False else Inl ErrSyntax)"
proof -
  assume nu: "\<not> is_uint64_text s"
  have "is_uint64_text ''1''" "is_uint64_text ''0''"
    by (simp_all add: is_uint64_text_def is_digit_def byte_def dec_value_def digit_val_def
        maxUint64_def)
  then have "s \<noteq> ''1''" "s \<noteq> ''0''" using nu by auto
  then show ?thesis
    by (auto simp: ParseBool_def true_literals_def false_literals_def)
qed

text \<open>
  C5, as the code has it.  For every receiver \<open>c\<close> and attribute: a text that is a
  decimal unsigned integer below \<open>2 ^ 64\<close> sets the integer variant; any other text
  sets the boolean variant exactly when it is one of the ten spellings t, T, TRUE, true,
  True, f, F, FALSE, false, False; decoding fails exactly when the text is neither, and
  the error then carries the attribute (its name and its raw text).
\<close>

theorem UnmarshalXMLAttr_outcome:
  "UnmarshalXMLAttr c attr =
     (if is_uint64_text (Attr_Value attr)
      then Inr (c\<lparr>cu_u := Some (word_of_nat (dec_value (Attr_Value attr)))\<rparr>)
      else if Attr_Value attr \<in> set true_literals then Inr (c\<lparr>cu_b := Some True\<rparr>)
      else if Attr_Value attr \<in> set false_literals then Inr (c\<lparr>cu_b := Some False\<rparr>)
      else Inl (CantUnmarshalXMLAttr attr))
   \<and> (isl (UnmarshalXMLAttr c attr) \<longleftrightarrow>
        \<not> is_uint64_text (Attr_Value attr) \<and>
        Attr_Value attr \<notin> set true_literals \<union> set false_literals)"
proof (cases "is_uint64_text (Attr_Value attr)")
  case True
  then have "ParseUint (Attr_Value attr) = Inr (word_of_nat (dec_value (Attr_Value attr)))"
    by (simp add: ParseUint_Inr)
  then show ?thesis using True by (simp add: UnmarshalXMLAttr_def)
next
  case False
  then obtain e where "ParseUint (Attr_Value attr) = Inl e"
    using ParseUint_Inl [of "Attr_Value attr"] by blast
  then show ?thesis
    using False ParseBool_cases [OF False]
    by (auto simp: UnmarshalXMLAttr_def)
qed

theorem UnmarshalXMLAttr_outcome_witness:
  "UnmarshalXMLAttr zero_ConditionalUint \<lparr>Attr_Name = zero_Name, Attr_Value = ''007''\<rparr>
     = Inr \<lparr>cu_u = Some 7, cu_b = None\<rparr>
   \<and> UnmarshalXMLAttr zero_ConditionalUint \<lparr>Attr_Name = zero_Name, Attr_Value = ''T''\<rparr>
     = Inr \<lparr>cu_u = None, cu_b = Some True\<rparr>
   \<and> isl (UnmarshalXMLAttr zero_ConditionalUint \<lparr>Attr_Name = zero_Name, Attr_Value = ''yes''\<rparr>)"
  using
    UnmarshalXMLAttr_outcome [of zero_ConditionalUint "\<lparr>Attr_Name = zero_Name, Attr_Value = ''007''\<rparr>"]
    UnmarshalXMLAttr_outcome [of zero_ConditionalUint "\<lparr>Attr_Name = zero_Name, Attr_Value = ''T''\<rparr>"]
    UnmarshalXMLAttr_outcome [of zero_ConditionalUint "\<lparr>Attr_Name = zero_Name, Attr_Value = ''yes''\<rparr>"]
  by (simp add: is_uint64_text_def is_digit_def byte_def dec_value_def digit_val_def
      maxUint64_def true_literals_def false_literals_def zero_ConditionalUint_def)

text \<open>
  C5 as the specification words it fails: "tRUE" is not an unsigned integer and equals
  "true" when case is ignored, yet decoding it fails; "t" is neither an unsigned integer
  nor a case variant of "true" or "false", yet decoding it succeeds.
\<close>

theorem UnmarshalXMLAttr_case_insensitive_counterexample:
  "spec_bool_literal ''tRUE''
   \<and> ParseUint ''tRUE'' = Inl ErrSyntax
   \<and> UnmarshalXMLAttr zero_ConditionalUint
         \<lparr>Attr_Name = \<lparr>Name_Space = [], Name_Local = ''segmentAlignment''\<rparr>, Attr_Value = ''tRUE''\<rparr>
       = Inl (CantUnmarshalXMLAttr
         \<lparr>Attr_Name = \<lparr>Name_Space = [], Name_Local = ''segmentAlignment''\<rparr>, Attr_Value = ''tRUE''\<rparr>)
   \<and> \<not> spec_bool_literal ''t''
   \<and> ParseUint ''t'' = Inl ErrSyntax
   \<and> UnmarshalXMLAttr zero_ConditionalUint
         \<lparr>Attr_Name = \<lparr>Name_Space = [], Name_Local = ''segmentAlignment''\<rparr>, Attr_Value = ''t''\<rparr>
       = Inr \<lparr>cu_u = None, cu_b = Some True\<rparr>"
  by (simp add: spec_bool_literal_def ascii_lower_def UnmarshalXMLAttr_def
      zero_ConditionalUint_def parse_simps)

subsection \<open>At most one variant\<close>




text \<open>
  The restriction to a zero-valued receiver matters: decoding assigns one field and
  keeps the other, so decoding a number into a value whose boolean variant is set
  leaves both set.
\<close>

lemma UnmarshalXMLAttr_keeps_other_field:
  "UnmarshalXMLAttr \<lparr>cu_u = None, cu_b = Some True\<rparr> \<lparr>Attr_Name = name, Attr_Value = ''42''\<rparr>
     = Inr \<lparr>cu_u = Some 42, cu_b = Some True\<rparr>"
  by (simp add: UnmarshalXMLAttr_def parse_simps)

section \<open>Properties of the rewrite pass\<close>

subsection \<open>Auxiliary facts\<close>

lemma Contains_sublist: "Contains s p \<longleftrightarrow> sublist p s"
proof (induction s)
  case Nil
  show ?case by (simp add: Contains_def)
next
  case (Cons c cs)
  then show ?case
    by (auto simp: Contains_def sublist_Cons_right)
qed

lemma Contains_Cons:
  "Contains (c # cs) p \<longleftrightarrow> prefix p (c # cs) \<or> Contains cs p"
  by (simp add: Contains_sublist sublist_Cons_right)


lemma ReplaceAllString_no_match:
  "\<not> emptyElementRE_MatchString s \<Longrightarrow> emptyElementRE_ReplaceAllString s repl = s"
proof (induction s)
  case Nil
  show ?case by (simp add: emptyElementRE_ReplaceAllString.simps)
next
  case (Cons c cs)
  then have "emptyElementRE_match (c # cs) = None" and "\<not> emptyElementRE_MatchString cs"
    by simp_all
  then show ?case
    using Cons.IH by (simp add: emptyElementRE_ReplaceAllString.simps [of "c # cs"])
qed

function read_lines :: "string \<Rightarrow> string list" where
  "read_lines x =
     (case ReadString x (CHR 0x0A) of
        (s, rest, eof) \<Rightarrow> (if s \<noteq> [] then [s] else []) @ (if eof then [] else read_lines rest))"
  by pat_completeness auto
termination
  by (relation "measure length") (auto dest: ReadString_shorter [OF sym])

declare read_lines.simps [simp del]

lemma rewrite_loop_lines: "rewrite_loop x = concat (map rewrite_line (read_lines x))"
proof (induction x rule: rewrite_loop.induct)
  case (1 x)
  obtain s rest eof where r: "ReadString x (CHR 0x0A) = (s, rest, eof)"
    by (cases "ReadString x (CHR 0x0A)") auto
  show ?case
  proof (cases eof)
    case True
    then show ?thesis
      using r by (simp add: rewrite_loop.simps [of x] read_lines.simps [of x])
  next
    case False
    then have "rewrite_loop rest = concat (map rewrite_line (read_lines rest))"
      using "1.IH" r by simp
    then show ?thesis
      using r False by (simp add: rewrite_loop.simps [of x] read_lines.simps [of x])
  qed
qed

lemma ReadString_concat:
  "ReadString x d = (s, rest, eof) \<Longrightarrow> s @ rest = x"
  by (auto simp: ReadString_def split: list.splits)
     (metis takeWhile_dropWhile_id append.assoc append_Cons append_Nil)

lemma concat_read_lines: "concat (read_lines x) = x"
proof (induction x rule: read_lines.induct)
  case (1 x)
  obtain s rest eof where r: "ReadString x (CHR 0x0A) = (s, rest, eof)"
    by (cases "ReadString x (CHR 0x0A)") auto
  have sx: "s @ rest = x" using r by (rule ReadString_concat)
  show ?case
  proof (cases eof)
    case True
    then have "rest = []" using r by (auto simp: ReadString_def split: list.splits)
    then show ?thesis
      using r True sx by (simp add: read_lines.simps [of x])
  next
    case False
    then have "concat (read_lines rest) = rest"
      using "1.IH" r by simp
    then show ?thesis
      using r False sx by (auto simp: read_lines.simps [of x])
  qed
qed

declare emptyElementRE_match.simps [simp del]
lemmas str_simps = Contains_def Replace_def Replace_from.simps
  emptyElementRE_ReplaceAllString.simps emptyElementRE_match.simps is_letter_def byte_def
lemmas trim_simps = TrimSpace_def TrimLeftFunc.simps TrimRightFunc.simps DecodeLastRune_def
  IsSpace_def RuneStart_def byte_def Let_def
lemmas rule_simps = rewrite_line_def rule_collapse_def rule_MPD_def rule_pssh_def rule_pro_def
  rule_default_KID_def rule_SegmentTimeline_def

definition untriggered :: "string \<Rightarrow> bool" where
  \<open>untriggered s =
     (\<not> emptyElementRE_MatchString s \<and> \<not> Contains s ''<MPD'' \<and> \<not> Contains s ''<pssh''
      \<and> \<not> Contains s ''<pro'' \<and> \<not> Contains s ''default_KID''
      \<and> TrimSpace s \<noteq> ''<SegmentTimeline/>'')\<close>

lemma rewrite_line_untriggered: "untriggered s \<Longrightarrow> rewrite_line s = s"
  by (simp add: untriggered_def rule_simps ReplaceAllString_no_match)




lemma ReplaceAllString_at_match:
  "emptyElementRE_match s = Some rest \<Longrightarrow>
   emptyElementRE_ReplaceAllString s repl = repl @ emptyElementRE_ReplaceAllString rest repl"
  by (subst emptyElementRE_ReplaceAllString.simps, cases s)
     (simp_all add: emptyElementRE_match.simps)

lemma ReplaceAllString_no_match_here:
  "emptyElementRE_match (c # cs) = None \<Longrightarrow>
   emptyElementRE_ReplaceAllString (c # cs) repl = c # emptyElementRE_ReplaceAllString cs repl"
  by (simp add: emptyElementRE_ReplaceAllString.simps [of "c # cs"])

lemma match_close_tag:
  assumes "name \<noteq> []" and "list_all is_letter name"
  shows \<open>emptyElementRE_match (''></'' @ name @ ''>'' @ post) = Some post\<close>
proof -
  have nl: \<open>\<not> is_letter (CHR ''>'')\<close> by (simp add: is_letter_def byte_def)
  have tw: \<open>takeWhile is_letter (name @ ''>'' @ post) = name\<close>
    using assms(2) nl by (simp add: takeWhile_append2 list_all_iff)
  have dw: \<open>dropWhile is_letter (name @ ''>'' @ post) = ''>'' @ post\<close>
    using assms(2) nl by (simp add: dropWhile_append2 list_all_iff)
  show ?thesis
    using tw dw assms(1) by (simp add: emptyElementRE_match.simps)
qed

lemma match_needs_close:
  \<open>emptyElementRE_match s \<noteq> None \<Longrightarrow> prefix ''></'' s\<close>
  by (induction s rule: emptyElementRE_match.induct) (auto simp: emptyElementRE_match.simps split: if_splits)

lemma collapse_first:
  assumes \<open>\<not> Contains pre ''</''\<close> and "name \<noteq> []" and "list_all is_letter name"
  shows \<open>rule_collapse (pre @ ''></'' @ name @ ''>'' @ post) = pre @ ''/>'' @ rule_collapse post\<close>
  using assms(1)
proof (induction pre)
  case Nil
  show ?case
    using ReplaceAllString_at_match [OF match_close_tag [OF assms(2,3)]]
    by (simp add: rule_collapse_def)
next
  case (Cons c pre)
  have no: \<open>\<not> Contains pre ''</''\<close>
    using Cons.prems by (simp add: Contains_Cons)
  then have np: \<open>\<not> prefix ''</'' pre\<close>
    using prefix_imp_sublist by (auto simp: Contains_sublist)
  have \<open>\<not> prefix ''></'' (c # pre @ ''></'' @ name @ ''>'' @ post)\<close>
  proof (cases pre)
    case Nil
    then show ?thesis by simp
  next
    case (Cons d pre')
    then show ?thesis using np by (cases pre') auto
  qed
  then have \<open>emptyElementRE_match (c # pre @ ''></'' @ name @ ''>'' @ post) = None\<close>
    using match_needs_close by blast
  then have \<open>emptyElementRE_ReplaceAllString (c # pre @ ''></'' @ name @ ''>'' @ post) ''/>''
      = c # emptyElementRE_ReplaceAllString (pre @ ''></'' @ name @ ''>'' @ post) ''/>''\<close>
    by (rule ReplaceAllString_no_match_here)
  then show ?case
    using Cons.IH [OF no] by (simp add: rule_collapse_def)
qed


subsection \<open>Lines without a trigger are kept\<close>

text \<open>
  C8.  A line with no match of the regular expression, with none of the substrings
  \<open><MPD\<close>, \<open><pssh\<close>, \<open><pro\<close>, \<open>default_KID\<close>, and whose trimmed content is not
  the self-closed empty timeline tag (\<open>untriggered\<close>) is rewritten to itself; and the
  pass returns the rewritten lines of its input in their order, so each such line
  stands in the output as it stood in the input.
\<close>

theorem rewrite_pass_frame:
  "(untriggered s \<longrightarrow> rewrite_line s = s)
   \<and> concat (read_lines x) = x
   \<and> rewrite_loop x
       = concat (map (\<lambda>l. if untriggered l then l else rewrite_line l) (read_lines x))"
proof -
  have eq: "(if untriggered l then l else rewrite_line l) = rewrite_line l" for l
    by (simp add: rewrite_line_untriggered)
  have "rewrite_loop x
          = concat (map (\<lambda>l. if untriggered l then l else rewrite_line l) (read_lines x))"
    unfolding eq by (rule rewrite_loop_lines)
  then show ?thesis
    using concat_read_lines [of x] rewrite_line_untriggered [of s] by blast
qed

theorem rewrite_pass_frame_witness:
  \<open>untriggered (''  <Period id="p0">'' @ [CHR 0x0A])
   \<and> rewrite_line (''  <Period id="p0">'' @ [CHR 0x0A]) = ''  <Period id="p0">'' @ [CHR 0x0A]
   \<and> read_lines (''  <Period id="p0">'' @ [CHR 0x0A] @ ''  </Period>'')
       = [''  <Period id="p0">'' @ [CHR 0x0A], ''  </Period>'']
   \<and> rewrite_loop (''  <Period id="p0">'' @ [CHR 0x0A] @ ''  </Period>'')
       = ''  <Period id="p0">'' @ [CHR 0x0A] @ ''  </Period>''\<close>
proof -
  have u1: \<open>untriggered (''  <Period id="p0">'' @ [CHR 0x0A])\<close>
    by (simp add: untriggered_def str_simps trim_simps)
  have u2: \<open>untriggered ''  </Period>''\<close>
    by (simp add: untriggered_def str_simps trim_simps)
  have rl: \<open>read_lines (''  <Period id="p0">'' @ [CHR 0x0A] @ ''  </Period>'')
       = [''  <Period id="p0">'' @ [CHR 0x0A], ''  </Period>'']\<close>
    by (simp add: read_lines.simps ReadString_def)
  show ?thesis
    using u1 u2 rl
      rewrite_pass_frame [of \<open>''  <Period id="p0">'' @ [CHR 0x0A]\<close>
        \<open>''  <Period id="p0">'' @ [CHR 0x0A] @ ''  </Period>''\<close>]
    by simp
qed

subsection \<open>How many occurrences each rule replaces\<close>

text \<open>
  Two ways to replace, said without \<open>Replace\<close>: \<open>replace_first_only\<close> cuts \<open>s\<close>
  at the first occurrence of \<open>old\<close>, puts \<open>new\<close> there and copies everything after
  the occurrence unchanged; \<open>replace_every\<close> cuts \<open>s\<close> at each occurrence of
  \<open>old\<close> in turn, from left to right, and joins the pieces with \<open>new\<close>.
\<close>

definition replace_first_only :: "string \<Rightarrow> string \<Rightarrow> string \<Rightarrow> string" where
  "replace_first_only s old new =
     (case Index s old of
        None \<Rightarrow> s
      | Some i \<Rightarrow> take i s @ new @ drop (i + length old) s)"

function pieces :: "string \<Rightarrow> string \<Rightarrow> string list" where
  "pieces s old =
     (if old = [] then [s]
      else (case Index s old of
              None \<Rightarrow> [s]
            | Some i \<Rightarrow> take i s # pieces (drop (i + length old) s) old))"
  by pat_completeness auto
termination
proof (relation "measure (\<lambda>(s, old). length s)")
  show "wf (measure (\<lambda>(s, old). length s))" by simp
next
  fix s old :: string and i
  assume "old \<noteq> []" and "Index s old = Some i"
  then have "i + length old \<le> length s" and "0 < length old"
    using Index_bound by auto
  then have "length s - (i + length old) < length s"
    by linarith
  then show "((drop (i + length old) s, old), (s, old)) \<in> measure (\<lambda>(s, old). length s)"
    by simp
qed

declare pieces.simps [simp del]

fun join :: "string list \<Rightarrow> string \<Rightarrow> string" where
  "join [] sep = []"
| "join [a] sep = a"
| "join (a # b # r) sep = a @ sep @ join (b # r) sep"

definition replace_every :: "string \<Rightarrow> string \<Rightarrow> string \<Rightarrow> string" where
  "replace_every s old new = join (pieces s old) new"

lemma pieces_not_Nil: "pieces s old \<noteq> []"
  by (subst pieces.simps) (simp split: option.splits)

lemma join_Cons: "r \<noteq> [] \<Longrightarrow> join (a # r) sep = a @ sep @ join r sep"
  by (cases r) simp_all

lemma Replace_one:
  "old \<noteq> [] \<Longrightarrow> old \<noteq> new \<Longrightarrow> Replace s old new 1 = replace_first_only s old new"
  by (simp add: Replace_def replace_first_only_def Replace_from.simps [of s old new 1]
      Replace_from.simps [of _ old new 0] split: option.splits)

lemma Replace_from_all:
  "n < 0 \<Longrightarrow> old \<noteq> [] \<Longrightarrow> Replace_from s old new n = join (pieces s old) new"
proof (induction s old new n rule: Replace_from.induct)
  case (1 s old new n)
  show ?case
  proof (cases "Index s old")
    case None
    then show ?thesis
      using "1.prems" by (simp add: Replace_from.simps [of s] pieces.simps [of s])
  next
    case (Some j)
    have "Replace_from (drop (j + length old) s) old new (n - 1)
            = join (pieces (drop (j + length old) s) old) new"
      using "1.IH" [OF _ Some] "1.prems" by simp
    then show ?thesis
      using "1.prems" Some
      by (simp add: Replace_from.simps [of s] pieces.simps [of s] join_Cons pieces_not_Nil)
  qed
qed

lemma Replace_all:
  "old \<noteq> [] \<Longrightarrow> old \<noteq> new \<Longrightarrow> Replace s old new (- 1) = replace_every s old new"
  by (simp add: Replace_def replace_every_def Replace_from_all)

text \<open>
  C4, as the code has it.  The rule for the root element replaces the first occurrence
  only of \<open>cenc\<close> and of \<open>mspr\<close>.  The rules for \<open>pssh\<close> and \<open>pro\<close> replace the
  first occurrence only of the namespace marker and every occurrence of the tag name.
  The rule for \<open>default_KID\<close> replaces every occurrence of \<open>default_KID\<close> and then
  every occurrence of \<open>cenc=\<close>.
\<close>

theorem rules_replace_first_or_every:
  \<open>rule_MPD s =
     (if Contains s ''<MPD''
      then replace_first_only (replace_first_only s ''cenc'' ''xmlns:cenc'') ''mspr'' ''xmlns:mspr''
      else s)
   \<and> rule_pssh s =
     (if Contains s ''<pssh''
      then replace_every (replace_first_only s ''cenc'' ''xmlns:cenc'') ''pssh'' ''cenc:pssh''
      else s)
   \<and> rule_pro s =
     (if Contains s ''<pro''
      then replace_every (replace_first_only s ''mspr'' ''xmlns:mspr'') ''pro'' ''mspr:pro''
      else s)
   \<and> rule_default_KID s =
     (if Contains s ''default_KID''
      then replace_every (replace_every s ''default_KID'' ''cenc:default_KID'')
             ''cenc='' ''xmlns:cenc=''
      else s)\<close>
  by (simp add: rule_MPD_def rule_pssh_def rule_pro_def rule_default_KID_def
      Replace_one Replace_all)

theorem rules_replace_first_or_every_witness:
  \<open>rule_pssh ''<pssh cenc="cenc">pssh</pssh>''
     = ''<cenc:pssh xmlns:cenc="cenc">cenc:pssh</cenc:pssh>''
   \<and> rule_MPD ''<MPD cenc="cenc" mspr="mspr">'' = ''<MPD xmlns:cenc="cenc" xmlns:mspr="mspr">''\<close>
  using rules_replace_first_or_every [of \<open>''<pssh cenc="cenc">pssh</pssh>''\<close>]
    rules_replace_first_or_every [of \<open>''<MPD cenc="cenc" mspr="mspr">''\<close>]
  by (simp add: Contains_def replace_first_only_def replace_every_def pieces.simps)

text \<open>
  C4 as stated fails: on a line with \<open><pssh\<close> the opening and the closing tag name
  are both rewritten, and on a line with \<open>default_KID\<close> both occurrences are.
\<close>

theorem rule_pssh_rewrites_later_occurrence_counterexample:
  \<open>rule_pssh ''<pssh>AAAA</pssh>'' = ''<cenc:pssh>AAAA</cenc:pssh>''
   \<and> rule_default_KID ''<a default_KID="1" x="default_KID"/>''
       = ''<a cenc:default_KID="1" x="cenc:default_KID"/>''\<close>
  by (simp add: rule_pssh_def rule_default_KID_def str_simps)

subsection \<open>Collapsing an empty element\<close>




section \<open>Encode on documents\<close>

lemmas escape_simps = EscapeString.simps escape_rune_def isInCharacterRange_def byte_def Let_def

lemmas print_simps = writeStart_def writeEnd_def writeIndent_def new_printer_def indent_text_def
  attr_text_def

lemmas field_simps = attr_string_def attr_string_ptr_def attr_uint64_def attr_uint64_ptr_def
  attr_uint32_ptr_def attr_int64_ptr_def attr_bool_ptr_def attr_ConditionalUint_def
  elem_string_omitempty_def chardata_string_ptr_def elem_ptr_def MarshalXMLAttr_def
  zero_Attr_def zero_Name_def

lemmas node_simps = SegmentTimelineSegment_node_def SegmentTimeline_node_def
  SegmentTemplate_node_def Pssh_node_def Pro_node_def ContentProtection_node_def Event_node_def
  EventStream_node_def ProgramEventStream_node_def AudioChannelConfiguration_node_def
  Representation_node_def AdaptationSet_node_def Descriptor_node_def Period_node_def MPD_node_def

lemmas zero_simps = zero_SegmentTemplate_def zero_Representation_def zero_AdaptationSet_def
  zero_Period_def zero_MPD_def zero_ConditionalUint_def

lemmas marshal_simps = xml_Encode_def zero_simps node_simps field_simps print_simps escape_simps
  format_simps

lemmas rewrite_simps = rewrite_loop.simps ReadString_def rule_simps str_simps trim_simps

text \<open>A text given line by line, each line ended by a newline.\<close>

definition lines_text :: "string list \<Rightarrow> string" where
  "lines_text ls = concat (map (\<lambda>l. l @ [CHR 0x0A]) ls)"

subsection \<open>A marker substring inside a value\<close>

definition doc_profiles_cenc :: MPD where
  "doc_profiles_cenc = zero_MPD\<lparr>MPD_Profiles := ''urn:cenc:2013''\<rparr>"

lemma xml_Encode_doc_profiles_cenc:
  \<open>xml_Encode doc_profiles_cenc = Inr ''<MPD profiles="urn:cenc:2013"></MPD>''\<close>
  by (simp add: doc_profiles_cenc_def marshal_simps)

text \<open>
  C10.  There is a document whose \<open>Cenc\<close> field is nil and whose \<open>Profiles\<close> string
  contains \<open>cenc\<close>, and \<open>Encode\<close> writes \<open>xmlns:cenc\<close> in place of that occurrence
  inside the value of the \<open>profiles\<close> attribute: the value written is not the value
  stored.
\<close>

theorem Encode_rewrites_cenc_inside_profiles:
  \<open>MPD_Cenc doc_profiles_cenc = None
   \<and> MPD_Profiles doc_profiles_cenc = ''urn:cenc:2013''
   \<and> Contains (MPD_Profiles doc_profiles_cenc) ''cenc''
   \<and> Encode doc_profiles_cenc
       = Inr (lines_text [xml_header, ''<MPD profiles="urn:xmlns:cenc:2013"/>''])\<close>
proof -
  have \<open>rewrite_loop ''<MPD profiles="urn:cenc:2013"></MPD>''
          = ''<MPD profiles="urn:xmlns:cenc:2013"/>''\<close>
    by (simp add: rewrite_simps)
  then have \<open>Encode doc_profiles_cenc
       = Inr (lines_text [xml_header, ''<MPD profiles="urn:xmlns:cenc:2013"/>''])\<close>
    by (simp add: Encode_def xml_Encode_doc_profiles_cenc lines_text_def)
  moreover have \<open>Contains (MPD_Profiles doc_profiles_cenc) ''cenc''\<close>
    by (simp add: doc_profiles_cenc_def zero_MPD_def Contains_def)
  ultimately show ?thesis
    by (simp add: doc_profiles_cenc_def zero_MPD_def)
qed

subsection \<open>Running the pass twice\<close>






section \<open>Empty timelines leave no element\<close>

subsection \<open>Occurrences of a substring under the rewrite rules\<close>

lemma sublist_tr: "sublist a b \<Longrightarrow> sublist b c \<Longrightarrow> sublist a c"
  unfolding sublist_def by (metis append.assoc)

lemma sublist_sep:
  assumes "c \<notin> set t"
  shows "sublist t (xs @ c # ys) \<longleftrightarrow> sublist t xs \<or> sublist t ys"
proof
  assume "sublist t (xs @ c # ys)"
  then consider "sublist t xs" | "sublist t (c # ys)"
    | t1 t2 where "t = t1 @ t2" "suffix t1 xs" "prefix t2 (c # ys)"
    by (auto simp: sublist_append)
  then show "sublist t xs \<or> sublist t ys"
  proof cases
    case 1
    then show ?thesis by simp
  next
    case 2
    then have "prefix t (c # ys) \<or> sublist t ys" by (simp add: sublist_Cons_right)
    then show ?thesis using assms by (cases t) auto
  next
    case 3
    then show ?thesis using assms by (cases t2) auto
  qed
next
  assume "sublist t xs \<or> sublist t ys"
  then show "sublist t (xs @ c # ys)"
    by (auto simp: sublist_def) (metis append.assoc append_Cons)+
qed

lemma Index_Some_decomp:
  "Index s old = Some j \<Longrightarrow> s = take j s @ old @ drop (j + length old) s"
proof (induction s arbitrary: j)
  case Nil
  then show ?case by (simp split: if_splits)
next
  case (Cons c cs)
  show ?case
  proof (cases "prefix old (c # cs)")
    case True
    then have "j = 0" using Cons.prems by simp
    then show ?thesis using True by (auto simp: prefix_def)
  next
    case False
    then obtain k where k: "Index cs old = Some k" "j = Suc k"
      using Cons.prems by auto
    then show ?thesis using Cons.IH [OF k(1)] by simp
  qed
qed

text \<open>q_safe t q: appending q to a text cannot complete an occurrence of t\<close>
definition q_safe :: "string \<Rightarrow> string \<Rightarrow> bool" where
  "q_safe t q = (\<forall>pre. \<not> sublist t pre \<longrightarrow> \<not> sublist t (pre @ q))"

lemma q_safeD: "q_safe t q \<Longrightarrow> \<not> sublist t pre \<Longrightarrow> \<not> sublist t (pre @ q)"
  by (simp add: q_safe_def)

lemma Replace_from_keeps_absent:
  assumes sep: "c \<notin> set t" and q: "q_safe t q"
  shows "\<not> sublist t (pre @ s) \<Longrightarrow> \<not> sublist t (pre @ Replace_from s old (q @ c # old) n)"
proof (induction s old "q @ c # old" n arbitrary: pre rule: Replace_from.induct)
  case (1 s old n)
  show ?case
  proof (cases "n = 0 \<or> old = []")
    case True
    then show ?thesis using "1.prems" by (simp add: Replace_from.simps [of s])
  next
    case False
    show ?thesis
    proof (cases "Index s old")
      case None
      then show ?thesis using "1.prems" False by (simp add: Replace_from.simps [of s])
    next
      case (Some j)
      let ?a = "take j s" and ?r = "drop (j + length old) s"
      have s: "s = ?a @ old @ ?r" using Some by (rule Index_Some_decomp)
      have split: "pre @ s = (pre @ ?a) @ (old @ ?r)"
        by (subst s) simp
      have "\<not> sublist t (pre @ ?a)"
      proof
        assume "sublist t (pre @ ?a)"
        moreover have "sublist (pre @ ?a) (pre @ s)"
          unfolding split by (rule sublist_append_rightI)
        ultimately show False using "1.prems" sublist_tr by blast
      qed
      then have 1: "\<not> sublist t ((pre @ ?a) @ q)"
        by (rule q_safeD [OF q])
      have "\<not> sublist t (old @ ?r)"
      proof
        assume "sublist t (old @ ?r)"
        moreover have "sublist (old @ ?r) (pre @ s)"
          unfolding split by (rule sublist_append_leftI)
        ultimately show False using "1.prems" sublist_tr by blast
      qed
      then have 2: "\<not> sublist t (old @ Replace_from ?r old (q @ c # old) (n - 1))"
        using "1.hyps" [OF False Some] by simp
      have "Replace_from s old (q @ c # old) n
              = ?a @ (q @ c # old) @ Replace_from ?r old (q @ c # old) (n - 1)"
        using False Some by (simp add: Replace_from.simps [of s])
      then have "pre @ Replace_from s old (q @ c # old) n
              = ((pre @ ?a) @ q) @ c # (old @ Replace_from ?r old (q @ c # old) (n - 1))"
        by simp
      moreover have "\<not> sublist t
              (((pre @ ?a) @ q) @ c # (old @ Replace_from ?r old (q @ c # old) (n - 1)))"
        by (subst sublist_sep [OF sep]) (use 1 2 in blast)
      ultimately show ?thesis by simp
    qed
  qed
qed


definition timeline_open :: string where
  \<open>timeline_open = ''<SegmentTimeline''\<close>

lemma q_safe_by_prefixes:
  assumes "\<not> sublist t q" and "\<forall>t2 \<in> set (prefixes q). t2 = [] \<or> \<not> suffix t2 t"
  shows "q_safe t q"
  unfolding q_safe_def
proof (intro allI impI notI)
  fix pre
  assume a: "\<not> sublist t pre" and b: "sublist t (pre @ q)"
  from b consider "sublist t pre" | "sublist t q"
    | t1 t2 where "t = t1 @ t2" "suffix t1 pre" "prefix t2 q"
    by (auto simp: sublist_append)
  then show False
  proof cases
    case 1
    then show ?thesis using a by simp
  next
    case 2
    then show ?thesis using assms(1) by simp
  next
    case 3
    show ?thesis
    proof (cases "t2 = []")
      case True
      then have "suffix t pre" using 3 by simp
      then show ?thesis using a by auto
    next
      case False
      have "t2 \<in> set (prefixes q)" using 3(3) by (simp add: in_set_prefixes)
      then have "\<not> suffix t2 t" using assms(2) False by blast
      then show ?thesis using 3(1) by (simp add: suffix_def)
    qed
  qed
qed

lemma q_safe_timeline:
  \<open>q_safe timeline_open ''xmlns''\<close> \<open>q_safe timeline_open ''cenc''\<close> \<open>q_safe timeline_open ''mspr''\<close>
  by (rule q_safe_by_prefixes; simp add: timeline_open_def suffix_to_prefix sublist_Cons_right)+

lemma match_suffix: "emptyElementRE_match s = Some rest \<Longrightarrow> suffix rest s"
proof (induction s rule: emptyElementRE_match.induct)
  case (1 c1 c2 c3 r)
  have "suffix (dropWhile is_letter r) r" by (rule suffix_dropWhile)
  then have "suffix (dropWhile is_letter r) (c1 # c2 # c3 # r)"
    by (simp add: suffix_Cons)
  moreover have "suffix rest (dropWhile is_letter r)"
    using "1.prems" by (auto simp: emptyElementRE_match.simps suffix_Cons split: if_splits list.splits)
  ultimately show ?case using suffix_order.trans by blast
qed (simp_all add: emptyElementRE_match.simps)

lemma ReplaceAllString_keeps_absent:
  assumes \<open>CHR ''/'' \<notin> set t\<close> and \<open>CHR ''>'' \<notin> set t\<close> and "t \<noteq> []"
  shows \<open>\<not> sublist t (pre @ s) \<Longrightarrow>
         \<not> sublist t (pre @ emptyElementRE_ReplaceAllString s ''/>'')\<close>
proof (induction s \<open>''/>''\<close> arbitrary: pre rule: emptyElementRE_ReplaceAllString.induct)
  case (1 s)
  show ?case
  proof (cases s)
    case Nil
    then show ?thesis using "1.prems" by (simp add: emptyElementRE_ReplaceAllString.simps)
  next
    case (Cons c cs)
    show ?thesis
    proof (cases "emptyElementRE_match s")
      case None
      have "\<not> sublist t ((pre @ [c]) @ cs)" using "1.prems" Cons by simp
      then have \<open>\<not> sublist t ((pre @ [c]) @ emptyElementRE_ReplaceAllString cs ''/>'')\<close>
        using "1.hyps"(1) [OF Cons None] by blast
      moreover have \<open>emptyElementRE_ReplaceAllString s ''/>''
                       = c # emptyElementRE_ReplaceAllString cs ''/>''\<close>
        using None unfolding Cons by (rule ReplaceAllString_no_match_here)
      ultimately show ?thesis by simp
    next
      case (Some rest)
      have "suffix rest s" using Some by (rule match_suffix)
      then have "sublist rest (pre @ s)"
        by (meson suffix_imp_sublist sublist_tr sublist_append_leftI)
      then have "\<not> sublist t ([] @ rest)"
        using "1.prems" sublist_tr by auto
      then have \<open>\<not> sublist t ([] @ emptyElementRE_ReplaceAllString rest ''/>'')\<close>
        using "1.hyps"(2) [OF Cons Some] by blast
      moreover have "\<not> sublist t pre"
        using "1.prems" by (meson sublist_append_rightI sublist_tr)
      ultimately have \<open>\<not> sublist t (pre @ CHR ''/'' # ([] @ CHR ''>'' #
                          emptyElementRE_ReplaceAllString rest ''/>''))\<close>
        using assms by (simp only: sublist_sep [OF assms(1)] sublist_sep [OF assms(2)])
          (simp)
      then show ?thesis
        by (simp add: ReplaceAllString_at_match [OF Some])
    qed
  qed
qed


lemma timeline_open_chars:
  \<open>CHR '':'' \<notin> set timeline_open\<close> \<open>CHR ''/'' \<notin> set timeline_open\<close>
  \<open>CHR ''>'' \<notin> set timeline_open\<close> \<open>CHR 0x0A \<notin> set timeline_open\<close>
  \<open>timeline_open \<noteq> []\<close>
  by (simp_all add: timeline_open_def)

lemma Replace_keeps_absent:
  assumes \<open>new = q @ CHR '':'' # old\<close> and "q_safe timeline_open q" and "old \<noteq> []"
    and "\<not> sublist timeline_open s"
  shows "\<not> sublist timeline_open (Replace s old new n)"
proof -
  have "\<not> sublist timeline_open ([] @ Replace_from s old new n)"
    unfolding assms(1)
    by (rule Replace_from_keeps_absent [OF timeline_open_chars(1) assms(2)]) (use assms(4) in simp)
  moreover have "Replace s old new n = s \<or> Replace s old new n = Replace_from s old new n"
    using assms(3) by (simp add: Replace_def)
  ultimately show ?thesis using assms(4) by auto
qed

lemma rewrite_line_keeps_absent:
  assumes "\<not> sublist timeline_open s"
  shows "\<not> sublist timeline_open (rewrite_line s)"
proof -
  have xmlns_cenc: \<open>\<not> sublist timeline_open (Replace x ''cenc'' ''xmlns:cenc'' n)\<close>
    if "\<not> sublist timeline_open x" for x n
    by (rule Replace_keeps_absent [where q = \<open>''xmlns''\<close>]) (simp_all add: q_safe_timeline that)
  have xmlns_mspr: \<open>\<not> sublist timeline_open (Replace x ''mspr'' ''xmlns:mspr'' n)\<close>
    if "\<not> sublist timeline_open x" for x n
    by (rule Replace_keeps_absent [where q = \<open>''xmlns''\<close>]) (simp_all add: q_safe_timeline that)
  have cenc_pssh: \<open>\<not> sublist timeline_open (Replace x ''pssh'' ''cenc:pssh'' n)\<close>
    if "\<not> sublist timeline_open x" for x n
    by (rule Replace_keeps_absent [where q = \<open>''cenc''\<close>]) (simp_all add: q_safe_timeline that)
  have mspr_pro: \<open>\<not> sublist timeline_open (Replace x ''pro'' ''mspr:pro'' n)\<close>
    if "\<not> sublist timeline_open x" for x n
    by (rule Replace_keeps_absent [where q = \<open>''mspr''\<close>]) (simp_all add: q_safe_timeline that)
  have cenc_kid: \<open>\<not> sublist timeline_open (Replace x ''default_KID'' ''cenc:default_KID'' n)\<close>
    if "\<not> sublist timeline_open x" for x n
    by (rule Replace_keeps_absent [where q = \<open>''cenc''\<close>]) (simp_all add: q_safe_timeline that)
  have xmlns_eq: \<open>\<not> sublist timeline_open (Replace x ''cenc='' ''xmlns:cenc='' n)\<close>
    if "\<not> sublist timeline_open x" for x n
    by (rule Replace_keeps_absent [where q = \<open>''xmlns''\<close>]) (simp_all add: q_safe_timeline that)
  have 1: "\<not> sublist timeline_open (rule_collapse s)"
    using ReplaceAllString_keeps_absent [OF timeline_open_chars(2,3,5), of "[]" s] assms
    by (simp add: rule_collapse_def)
  have 2: "\<not> sublist timeline_open (rule_MPD x)" if "\<not> sublist timeline_open x" for x
    using that by (simp add: rule_MPD_def xmlns_cenc xmlns_mspr)
  have 3: "\<not> sublist timeline_open (rule_pssh x)" if "\<not> sublist timeline_open x" for x
    using that by (simp add: rule_pssh_def xmlns_cenc cenc_pssh)
  have 4: "\<not> sublist timeline_open (rule_pro x)" if "\<not> sublist timeline_open x" for x
    using that by (simp add: rule_pro_def xmlns_mspr mspr_pro)
  have 5: "\<not> sublist timeline_open (rule_default_KID x)" if "\<not> sublist timeline_open x" for x
    using that by (simp add: rule_default_KID_def cenc_kid xmlns_eq)
  have 6: "\<not> sublist timeline_open (rule_SegmentTimeline x)" if "\<not> sublist timeline_open x" for x
    using that timeline_open_chars(5) by (simp add: rule_SegmentTimeline_def)
  show ?thesis
    unfolding rewrite_line_def by (intro 6 5 4 3 2 1)
qed

definition line_start :: "string \<Rightarrow> bool" where
  \<open>line_start s = (case s of [] \<Rightarrow> False | c # r \<Rightarrow> c = CHR '' '' \<or> c = CHR ''<'')\<close>

lemma Replace_from_first:
  assumes "old \<noteq> []" and "hd old \<noteq> c"
  shows "\<exists>r'. Replace_from (c # r) old new n = c # r'"
proof (cases "n = 0")
  case True
  then show ?thesis by (simp add: Replace_from.simps [of "c # r"])
next
  case False
  have np: "\<not> prefix old (c # r)"
    using assms by (cases old) auto
  show ?thesis
  proof (cases "Index r old")
    case None
    then show ?thesis using np by (simp add: Replace_from.simps [of "c # r"])
  next
    case (Some k)
    then show ?thesis using np False assms(1) by (simp add: Replace_from.simps [of "c # r"])
  qed
qed

lemma Replace_first:
  assumes "old \<noteq> []" and "hd old \<noteq> c"
  shows "\<exists>r'. Replace (c # r) old new n = c # r'"
  using Replace_from_first [OF assms] assms(1) by (simp add: Replace_def)

lemma Replace_line_start:
  assumes "line_start s" and "old \<noteq> []" and \<open>hd old \<noteq> CHR '' ''\<close> and \<open>hd old \<noteq> CHR ''<''\<close>
  shows "line_start (Replace s old new n)"
proof -
  obtain c r where s: "s = c # r" and c: \<open>c = CHR '' '' \<or> c = CHR ''<''\<close>
    using assms(1) by (auto simp: line_start_def split: list.splits)
  then have "hd old \<noteq> c" using assms(3,4) by auto
  then obtain r' where "Replace (c # r) old new n = c # r'"
    using Replace_first [OF assms(2)] by blast
  then show ?thesis using s c by (simp add: line_start_def)
qed

lemma rewrite_line_line_start:
  assumes "line_start s"
  shows "rewrite_line s = [] \<or> line_start (rewrite_line s)"
proof -
  obtain c r where s: "s = c # r" and c: \<open>c = CHR '' '' \<or> c = CHR ''<''\<close>
    using assms by (auto simp: line_start_def split: list.splits)
  have \<open>\<not> prefix ''></'' (c # r)\<close> using c by auto
  then have "emptyElementRE_match (c # r) = None"
    using match_needs_close by blast
  then have 1: "line_start (rule_collapse s)"
    using c by (simp add: s rule_collapse_def ReplaceAllString_no_match_here line_start_def)
  have 2: "line_start (rule_MPD x)" if "line_start x" for x
    using that by (simp add: rule_MPD_def Replace_line_start)
  have 3: "line_start (rule_pssh x)" if "line_start x" for x
    using that by (simp add: rule_pssh_def Replace_line_start)
  have 4: "line_start (rule_pro x)" if "line_start x" for x
    using that by (simp add: rule_pro_def Replace_line_start)
  have 5: "line_start (rule_default_KID x)" if "line_start x" for x
    using that by (simp add: rule_default_KID_def Replace_line_start)
  have "line_start (rule_default_KID (rule_pro (rule_pssh (rule_MPD (rule_collapse s)))))"
    by (intro 5 4 3 2 1)
  then show ?thesis
    by (simp add: rewrite_line_def rule_SegmentTimeline_def)
qed

text \<open>pieces that are empty or begin like a line and are free of the tag\<close>
lemma concat_keeps_absent:
  assumes "\<forall>p \<in> set ps. p = [] \<or> (line_start p \<and> \<not> sublist timeline_open p)"
  shows "\<not> sublist timeline_open (concat ps) \<and> (concat ps = [] \<or> line_start (concat ps))"
  using assms
proof (induction ps)
  case Nil
  show ?case by (simp add: timeline_open_def)
next
  case (Cons p ps)
  then have IH: "\<not> sublist timeline_open (concat ps)"
    and st: "concat ps = [] \<or> line_start (concat ps)" by auto
  show ?case
  proof (cases "p = []")
    case True
    then show ?thesis using IH st by simp
  next
    case False
    then have p: "line_start p" "\<not> sublist timeline_open p" using Cons.prems by auto
    have ls: "line_start (p @ concat ps)"
      using p(1) by (auto simp: line_start_def split: list.splits)
    have "\<not> sublist timeline_open (p @ concat ps)"
    proof
      assume "sublist timeline_open (p @ concat ps)"
      then consider "sublist timeline_open p" | "sublist timeline_open (concat ps)"
        | t1 t2 where "timeline_open = t1 @ t2" "suffix t1 p" "prefix t2 (concat ps)"
        by (auto simp: sublist_append)
      then show False
      proof cases
        case 1
        then show ?thesis using p(2) by simp
      next
        case 2
        then show ?thesis using IH by simp
      next
        case 3
        show ?thesis
        proof (cases "t1 = [] \<or> t2 = []")
          case True
          then show ?thesis
            using 3 p(2) IH by (auto dest: suffix_imp_sublist prefix_imp_sublist)
        next
          case False
          then obtain a t1' where t1: "t1 = a # t1'" by (cases t1) auto
          then have t2set: \<open>set t2 \<subseteq> set ''SegmentTimeline''\<close>
            using 3(1) by (auto simp: timeline_open_def Cons_eq_append_conv)
          obtain b t2' where t2: "t2 = b # t2'" using False by (cases t2) auto
          then obtain r where "concat ps = b # r"
            using 3(3) by (cases "concat ps") auto
          then have \<open>b = CHR '' '' \<or> b = CHR ''<''\<close>
            using st by (auto simp: line_start_def)
          then show ?thesis using t2set t2 by auto
        qed
      qed
    qed
    then show ?thesis using ls by simp
  qed
qed

subsection \<open>Escaped text has no markup\<close>

lemma DecodeRune_multi:
  assumes "DecodeRune (c0 # cs) = (r, w)" and "w \<noteq> 1"
  shows "w \<le> Suc (length cs) \<and> 0x80 \<le> byte c0 \<and> 0x80 \<le> byte (cs ! 0)
         \<and> (w = 2 \<or> (0x80 \<le> byte (cs ! 1) \<and> (w = 3 \<or> (0x80 \<le> byte (cs ! 2) \<and> w = 4))))"
proof -
  let ?s0 = "byte c0"
  have A: "\<not> ?s0 < 0x80" using assms by (auto simp: Let_def)
  have B: "\<not> (?s0 < 0xC2 \<or> 0xF4 < ?s0)" using assms A by (auto simp: Let_def)
  show ?thesis
  proof (cases "?s0 < 0xE0")
    case True
    then show ?thesis
      using assms A B by (auto simp: Let_def Suc_le_eq split: if_splits)
  next
    case False
    show ?thesis
    proof (cases "?s0 < 0xF0")
      case True
      then show ?thesis
        using assms A B False by (auto simp: Let_def Suc_le_eq split: if_splits)
    next
      case F2: False
      then show ?thesis
        using assms A B False by (auto simp: Let_def Suc_le_eq split: if_splits)
    qed
  qed
qed


lemma DecodeRune_ascii_byte:
  assumes "DecodeRune s = (r, w)" and "c \<in> set (take w s)" and "byte c < 0x80"
  shows "r = byte c"
proof (cases s)
  case Nil
  then show ?thesis using assms by simp
next
  case (Cons c0 cs)
  show ?thesis
  proof (cases "w = 1")
    case True
    then have c: "c = c0" using assms(2) Cons by simp
    have "byte c0 < 0x80" using c assms(3) by simp
    then show ?thesis using assms(1) c unfolding Cons by simp
  next
    case False
    note m = DecodeRune_multi [OF assms(1) [unfolded Cons] False]
    have wl: "w \<le> length s" using m Cons by simp
    obtain i where "i < length (take w s)" and "take w s ! i = c"
      using assms(2) by (meson in_set_conv_nth)
    then have i: "i < w" "c = s ! i" using wl by simp_all
    have "i = 0 \<or> i = 1 \<or> i = 2 \<or> i = 3" using i(1) m by auto
    then have "0x80 \<le> byte c"
      using i m unfolding Cons by auto
    then show ?thesis using assms(3) by simp
  qed
qed

lemma escape_rune_plain:
  assumes "DecodeRune s = (r, w)"
  shows \<open>CHR ''<'' \<notin> set (escape_rune r w (take w s)) \<and> CHR 0x0A \<notin> set (escape_rune r w (take w s))\<close>
proof -
  have lt: \<open>CHR ''<'' \<in> set (take w s) \<Longrightarrow> r = 0x3C\<close>
    using DecodeRune_ascii_byte [OF assms, of \<open>CHR ''<''\<close>] by (simp add: byte_def)
  have nl: \<open>CHR 0x0A \<in> set (take w s) \<Longrightarrow> r = 0x0A\<close>
    using DecodeRune_ascii_byte [OF assms, of \<open>CHR 0x0A\<close>] by (simp add: byte_def)
  let ?e = "escape_rune r w (take w s)"
  have \<open>?e \<in> set [''&#34;'', ''&#39;'', ''&amp;'', ''&lt;'', ''&gt;'', ''&#x9;'', ''&#xA;'', ''&#xD;'',
                   [CHR 0xEF, CHR 0xBF, CHR 0xBD]]
        \<or> (?e = take w s \<and> r \<noteq> 0x3C \<and> r \<noteq> 0x0A)\<close>
    by (simp add: escape_rune_def)
  then consider
      \<open>?e \<in> set [''&#34;'', ''&#39;'', ''&amp;'', ''&lt;'', ''&gt;'', ''&#x9;'', ''&#xA;'', ''&#xD;'',
                   [CHR 0xEF, CHR 0xBF, CHR 0xBD]]\<close>
    | \<open>?e = take w s\<close> \<open>r \<noteq> 0x3C\<close> \<open>r \<noteq> 0x0A\<close>
    by blast
  then show ?thesis
  proof cases
    case 1
    then show ?thesis by auto
  next
    case 2
    then show ?thesis using lt nl by auto
  qed
qed

lemma EscapeString_plain:
  \<open>CHR ''<'' \<notin> set (EscapeString s) \<and> CHR 0x0A \<notin> set (EscapeString s)\<close>
proof (induction s rule: EscapeString.induct)
  case (1 s)
  show ?case
  proof (cases "s = []")
    case True
    then show ?thesis by (simp add: EscapeString.simps)
  next
    case False
    obtain r w where d: "DecodeRune s = (r, w)" by (cases "DecodeRune s") auto
    have "EscapeString s = escape_rune r w (take w s) @ EscapeString (drop w s)"
      using False d by (simp add: EscapeString.simps [of s])
    then show ?thesis
      using escape_rune_plain [OF d] "1.IH" [OF False] d by simp
  qed
qed

subsection \<open>The line of an empty timeline\<close>

lemma sublist_skip:
  assumes "p \<noteq> []" and "hd p \<notin> set a"
  shows "sublist p (a @ b) \<longleftrightarrow> sublist p b"
  using assms(2)
proof (induction a)
  case Nil
  show ?case by simp
next
  case (Cons x a)
  have "\<not> prefix p (x # a @ b)"
    using assms(1) Cons.prems by (cases p) auto
  then show ?case
    using Cons by (simp add: sublist_Cons_right)
qed

lemma Contains_skip:
  "p \<noteq> [] \<Longrightarrow> hd p \<notin> set a \<Longrightarrow> Contains (a @ b) p = Contains b p"
  by (simp add: Contains_sublist sublist_skip)

lemma indent_text_spaces: \<open>set (indent_text n) \<subseteq> {CHR '' ''}\<close>
  by (induction n) (auto simp: indent_text_def)

lemma TrimLeftFunc_space: \<open>TrimLeftFunc (CHR '' '' # r) IsSpace = TrimLeftFunc r IsSpace\<close>
  by (subst TrimLeftFunc.simps) (simp add: byte_def IsSpace_def)

lemma TrimLeftFunc_indent: "TrimLeftFunc (indent_text n @ s) IsSpace = TrimLeftFunc s IsSpace"
  by (induction n) (simp_all add: indent_text_def TrimLeftFunc_space)

lemma not_Contains_indent:
  assumes "p \<noteq> []" and \<open>hd p \<noteq> CHR '' ''\<close> and "\<not> Contains b p"
  shows "\<not> Contains (indent_text n @ b) p"
proof -
  have "hd p \<notin> set (indent_text n)"
    using indent_text_spaces [of n] assms(2) by auto
  then show ?thesis
    using assms(1,3) by (simp add: Contains_skip)
qed

lemma timeline_line_dropped:
  assumes \<open>e = [] \<or> e = [CHR 0x0A]\<close>
  shows \<open>rewrite_line (indent_text n @ ''<SegmentTimeline></SegmentTimeline>'' @ e) = []\<close>
proof -
  let ?L = \<open>indent_text n @ ''<SegmentTimeline/>'' @ e\<close>
  have sp: \<open>c \<noteq> CHR '' '' \<Longrightarrow> c \<notin> set (indent_text n)\<close> for c
    using indent_text_spaces [of n] by auto
  have \<open>\<not> sublist ''</'' (indent_text n @ ''<SegmentTimeline'')\<close>
    by (subst sublist_skip) (simp_all add: sp sublist_Cons_right)
  then have pre: \<open>\<not> Contains (indent_text n @ ''<SegmentTimeline'') ''</''\<close>
    by (simp add: Contains_sublist)
  have e: "rule_collapse e = e"
    using assms by (auto simp: rule_collapse_def str_simps)
  have \<open>rule_collapse ((indent_text n @ ''<SegmentTimeline'') @ ''></'' @ ''SegmentTimeline'' @ ''>'' @ e)
          = (indent_text n @ ''<SegmentTimeline'') @ ''/>'' @ rule_collapse e\<close>
    by (rule collapse_first [OF pre]) (simp_all add: is_letter_def byte_def)
  then have 1: \<open>rule_collapse (indent_text n @ ''<SegmentTimeline></SegmentTimeline>'' @ e) = ?L\<close>
    using e by simp
  have c: \<open>\<not> Contains ?L ''<MPD''\<close> \<open>\<not> Contains ?L ''<pssh''\<close> \<open>\<not> Contains ?L ''<pro''\<close>
    \<open>\<not> Contains ?L ''default_KID''\<close>
    by (rule not_Contains_indent; use assms in \<open>auto simp: Contains_def\<close>)+
  have 2: "rule_MPD ?L = ?L" "rule_pssh ?L = ?L" "rule_pro ?L = ?L" "rule_default_KID ?L = ?L"
    using c by (simp_all add: rule_MPD_def rule_pssh_def rule_pro_def rule_default_KID_def)
  have \<open>TrimSpace ?L = TrimRightFunc (TrimLeftFunc (''<SegmentTimeline/>'' @ e) IsSpace) IsSpace\<close>
    by (simp only: TrimSpace_def TrimLeftFunc_indent)
  also have \<open>\<dots> = ''<SegmentTimeline/>''\<close>
    using assms by (rule disjE) (simp_all add: trim_simps)
  finally have 3: "rule_SegmentTimeline ?L = []"
    by (simp add: rule_SegmentTimeline_def)
  show ?thesis
    unfolding rewrite_line_def 1 2 3 ..
qed

lemma ReadString_newline:
  assumes \<open>CHR 0x0A \<notin> set l\<close>
  shows \<open>ReadString (l @ CHR 0x0A # rest) (CHR 0x0A) = (l @ [CHR 0x0A], rest, False)\<close>
proof -
  have p: \<open>x \<in> set l \<Longrightarrow> x \<noteq> CHR 0x0A\<close> for x using assms by auto
  have \<open>dropWhile (\<lambda>c. c \<noteq> CHR 0x0A) (l @ CHR 0x0A # rest) = CHR 0x0A # rest\<close>
    using p by (simp add: dropWhile_append2)
  moreover have \<open>takeWhile (\<lambda>c. c \<noteq> CHR 0x0A) (l @ CHR 0x0A # rest) = l\<close>
    using p by (simp add: takeWhile_append2)
  ultimately show ?thesis by (simp add: ReadString_def)
qed

lemma ReadString_no_newline:
  assumes \<open>CHR 0x0A \<notin> set l\<close>
  shows \<open>ReadString l (CHR 0x0A) = (l, [], True)\<close>
proof -
  have d: \<open>dropWhile (\<lambda>c. c \<noteq> CHR 0x0A) l = []\<close>
    using assms by (auto simp: dropWhile_eq_Nil_conv)
  show ?thesis unfolding ReadString_def d by simp
qed

lemma read_lines_join:
  assumes \<open>\<forall>l \<in> set ls. CHR 0x0A \<notin> set l\<close> and \<open>x \<in> set (read_lines (join ls [CHR 0x0A]))\<close>
  shows \<open>\<exists>l \<in> set ls. x = l \<or> x = l @ [CHR 0x0A]\<close>
  using assms
proof (induction ls \<open>[CHR 0x0A]\<close> rule: join.induct)
  case 1
  then show ?case by (simp add: read_lines.simps ReadString_def)
next
  case (2 a)
  then show ?case
    by (simp add: read_lines.simps [of a] ReadString_no_newline split: if_splits)
next
  case (3 a b r)
  have \<open>join (a # b # r) [CHR 0x0A] = a @ CHR 0x0A # join (b # r) [CHR 0x0A]\<close> by simp
  then have \<open>read_lines (join (a # b # r) [CHR 0x0A])
                = (a @ [CHR 0x0A]) # read_lines (join (b # r) [CHR 0x0A])\<close>
    using 3(2) by (simp add: read_lines.simps [of \<open>a @ CHR 0x0A # join (b # r) [CHR 0x0A]\<close>]
        ReadString_newline)
  then show ?case
    using 3 by auto
qed

subsection \<open>The lines the printer writes\<close>

text \<open>
  The encoder starts every element on a new line, indented by its depth, and puts the
  end tag on the line of the start tag unless an element was written in between.  For
  the trees of this package (an element holds character data only or elements only)
  the output is therefore the following list of lines, joined by newlines.
\<close>

fun is_Element :: "xml_node \<Rightarrow> bool" where
  "is_Element (Element name attrs kids) = True"
| "is_Element (CharData t) = False"

fun text_only :: "xml_node list \<Rightarrow> string option" where
  "text_only [] = Some []"
| "text_only [CharData t] = Some (EscapeString t)"
| "text_only kids = None"

fun node_lines :: "nat \<Rightarrow> xml_node \<Rightarrow> string list" where
  "node_lines d (CharData t) = []"
| "node_lines d (Element name attrs kids) =
     (case text_only kids of
        Some body \<Rightarrow>
          [indent_text d @ ''<'' @ name @ concat (map attr_text attrs) @ ''>'' @ body
             @ ''</'' @ name @ ''>'']
      | None \<Rightarrow>
          (indent_text d @ ''<'' @ name @ concat (map attr_text attrs) @ ''>'')
            # concat (map (node_lines (Suc d)) kids)
            @ [indent_text d @ ''</'' @ name @ ''>''])"

definition element_names :: "string list" where
  "element_names =
     [''MPD'', ''Period'', ''SupplementalProperty'', ''BaseURL'', ''EventStream'',
      ''ProgramEventStream'', ''AdaptationSet'', ''ContentProtection'', ''Representation'',
      ''SegmentTemplate'', ''AudioChannelConfiguration'', ''Event'', ''pssh'', ''pro'',
      ''SegmentTimeline'', ''S'']"

definition plain_name :: "string \<Rightarrow> bool" where
  \<open>plain_name n = (CHR ''<'' \<notin> set n \<and> CHR 0x0A \<notin> set n)\<close>

fun wf_node :: "xml_node \<Rightarrow> bool" where
  "wf_node (CharData t) = True"
| "wf_node (Element name attrs kids) =
     (name \<in> set element_names
      \<and> list_all (\<lambda>a. plain_name (fst a)) attrs
      \<and> (if name = ''SegmentTimeline'' then attrs = [] \<and> kids = [] else True)
      \<and> (text_only kids \<noteq> None \<or> (\<forall>k \<in> set kids. is_Element k \<and> wf_node k)))"

lemma writeStart_eq:
  \<open>writeStart name attrs p =
     p\<lparr>buf := buf p @ (if putNewline p then [CHR 0x0A] else []) @ indent_text (depth p)
              @ ''<'' @ name @ concat (map attr_text attrs) @ ''>'',
       depth := Suc (depth p), indentedIn := True, putNewline := True\<rparr>\<close>
  by (simp add: writeStart_def writeIndent_def Let_def)

lemma writeEnd_same_line:
  \<open>indentedIn p \<Longrightarrow>
   writeEnd name p = p\<lparr>buf := buf p @ ''</'' @ name @ ''>'', depth := depth p - 1,
                        indentedIn := False\<rparr>\<close>
  by (simp add: writeEnd_def writeIndent_def Let_def)

lemma writeEnd_new_line:
  \<open>\<not> indentedIn p \<Longrightarrow> putNewline p \<Longrightarrow>
   writeEnd name p = p\<lparr>buf := buf p @ CHR 0x0A # indent_text (depth p - 1) @ ''</'' @ name @ ''>'',
                        depth := depth p - 1, indentedIn := False\<rparr>\<close>
  by (simp add: writeEnd_def writeIndent_def Let_def)

lemma fold_print_text_only:
  "text_only kids = Some body \<Longrightarrow> fold print_node kids q = q\<lparr>buf := buf q @ body\<rparr>"
  by (induction kids rule: text_only.induct) auto

lemma node_lines_not_Nil: "is_Element k \<Longrightarrow> node_lines d k \<noteq> []"
  by (cases k) (auto split: option.splits)

lemma join_append:
  "xs \<noteq> [] \<Longrightarrow> ys \<noteq> [] \<Longrightarrow> join (xs @ ys) sep = join xs sep @ sep @ join ys sep"
proof (induction xs sep rule: join.induct)
  case (2 a sep)
  then show ?case by (cases ys) simp_all
qed simp_all

lemma join_concat_last:
  assumes "\<forall>k \<in> set ks. f k \<noteq> []"
  shows "join (concat (map f ks) @ [z]) sep = concat (map (\<lambda>k. join (f k) sep @ sep) ks) @ z"
  using assms
proof (induction ks)
  case Nil
  show ?case by simp
next
  case (Cons k ks)
  have "join (f k @ (concat (map f ks) @ [z])) sep
          = join (f k) sep @ sep @ join (concat (map f ks) @ [z]) sep"
    using Cons.prems by (intro join_append) simp_all
  then show ?case using Cons by simp
qed

lemma sep_shift:
  "sep @ concat (map (\<lambda>k. g k @ sep) ks) = concat (map (\<lambda>k. sep @ g k) ks) @ sep"
  by (induction ks) simp_all

definition printed :: "printer \<Rightarrow> xml_node \<Rightarrow> printer" where
  \<open>printed p t =
     p\<lparr>buf := buf p @ (if putNewline p then [CHR 0x0A] else [])
                @ join (node_lines (depth p) t) [CHR 0x0A],
       indentedIn := False, putNewline := True\<rparr>\<close>

lemma fold_print_elements:
  assumes "\<And>k q. k \<in> set kids \<Longrightarrow> print_node k q = printed q k"
    and "putNewline q"
  shows \<open>fold print_node kids q =
           q\<lparr>buf := buf q @ concat (map (\<lambda>k. [CHR 0x0A] @ join (node_lines (depth q) k) [CHR 0x0A]) kids),
             indentedIn := (if kids = [] then indentedIn q else False)\<rparr>\<close>
  using assms
proof (induction kids arbitrary: q)
  case Nil
  show ?case by simp
next
  case (Cons k ks)
  have 1: "print_node k q = printed q k" using Cons.prems(1) by simp
  have 2: "putNewline (printed q k)" by (simp add: printed_def)
  have "fold print_node ks (printed q k) =
          (printed q k)\<lparr>buf := buf (printed q k)
             @ concat (map (\<lambda>k'. [CHR 0x0A] @ join (node_lines (depth (printed q k)) k') [CHR 0x0A]) ks),
             indentedIn := (if ks = [] then indentedIn (printed q k) else False)\<rparr>"
    by (rule Cons.IH) (use Cons.prems 2 in auto)
  then show ?case
    using Cons.prems(2) by (simp add: 1 printed_def)
qed

lemma print_node_lines:
  "wf_node t \<Longrightarrow> is_Element t \<Longrightarrow> print_node t p = printed p t"
proof (induction t arbitrary: p)
  case (CharData t)
  then show ?case by simp
next
  case (Element name attrs kids)
  let ?p1 = "writeStart name attrs p"
  show ?case
  proof (cases "text_only kids")
    case (Some body)
    then show ?thesis
      by (simp add: fold_print_text_only writeStart_eq writeEnd_same_line printed_def)
  next
    case None
    then have all: "\<forall>k \<in> set kids. is_Element k \<and> wf_node k" and ne: "kids \<noteq> []"
      using Element.prems by auto
    have IH: "\<And>k q. k \<in> set kids \<Longrightarrow> print_node k q = printed q k"
      using Element.IH all by blast
    have nn: "\<forall>k \<in> set kids. node_lines (Suc (depth p)) k \<noteq> []"
      using all node_lines_not_Nil by blast
    have f: \<open>fold print_node kids ?p1 =
           ?p1\<lparr>buf := buf ?p1 @ concat (map (\<lambda>k. [CHR 0x0A] @ join (node_lines (depth ?p1) k) [CHR 0x0A]) kids),
             indentedIn := (if kids = [] then indentedIn ?p1 else False)\<rparr>\<close>
      by (rule fold_print_elements [OF IH]) (simp_all add: writeStart_eq)
    have j: \<open>join (node_lines (depth p) (Element name attrs kids)) [CHR 0x0A]
          = (indent_text (depth p) @ ''<'' @ name @ concat (map attr_text attrs) @ ''>'')
            @ concat (map (\<lambda>k. [CHR 0x0A] @ join (node_lines (Suc (depth p)) k) [CHR 0x0A]) kids)
            @ [CHR 0x0A] @ indent_text (depth p) @ ''</'' @ name @ ''>''\<close>
      using None ne nn
      by (simp add: join_Cons join_concat_last sep_shift [of \<open>[CHR 0x0A]\<close>, simplified, symmetric])
    let ?B = \<open>buf ?p1 @ concat (map (\<lambda>k. [CHR 0x0A] @ join (node_lines (depth ?p1) k) [CHR 0x0A]) kids)\<close>
    have "print_node (Element name attrs kids) p = writeEnd name (fold print_node kids ?p1)"
      by simp
    also have "\<dots> = writeEnd name (?p1\<lparr>buf := ?B, indentedIn := False\<rparr>)"
      using ne by (simp only: f if_False)
    also have \<open>\<dots> = (?p1\<lparr>buf := ?B, indentedIn := False\<rparr>)
         \<lparr>buf := buf (?p1\<lparr>buf := ?B, indentedIn := False\<rparr>)
                   @ CHR 0x0A # indent_text (depth (?p1\<lparr>buf := ?B, indentedIn := False\<rparr>) - 1)
                   @ ''</'' @ name @ ''>'',
           depth := depth (?p1\<lparr>buf := ?B, indentedIn := False\<rparr>) - 1, indentedIn := False\<rparr>\<close>
      by (rule writeEnd_new_line) (simp_all add: writeStart_eq)
    also have "\<dots> = printed p (Element name attrs kids)"
      unfolding printed_def j by (simp add: writeStart_eq)
    finally show ?thesis .
  qed
qed

subsection \<open>Where the timeline tag can stand in a line\<close>

definition good_line :: "string \<Rightarrow> bool" where
  \<open>good_line l =
     (CHR 0x0A \<notin> set l \<and> line_start l
      \<and> (\<not> sublist timeline_open l
          \<or> (\<exists>n. l = indent_text n @ ''<SegmentTimeline></SegmentTimeline>'')))\<close>

lemma attr_text_plain:
  \<open>plain_name (fst a) \<Longrightarrow> CHR ''<'' \<notin> set (attr_text a) \<and> CHR 0x0A \<notin> set (attr_text a)\<close>
  by (simp add: attr_text_def plain_name_def EscapeString_plain)

lemma attrs_text_plain:
  \<open>list_all (\<lambda>a. plain_name (fst a)) attrs \<Longrightarrow>
   CHR ''<'' \<notin> set (concat (map attr_text attrs)) \<and> CHR 0x0A \<notin> set (concat (map attr_text attrs))\<close>
  by (induction attrs) (simp_all add: attr_text_plain)

lemma attrs_text_first:
  \<open>\<exists>c X. concat (map attr_text attrs) @ ''>'' @ rest = c # X \<and> (c = CHR '' '' \<or> c = CHR ''>'')\<close>
  by (cases attrs) (simp_all add: attr_text_def)

lemma element_names_plain:
  \<open>name \<in> set element_names \<Longrightarrow> CHR ''<'' \<notin> set name \<and> CHR 0x0A \<notin> set name\<close>
proof -
  have \<open>\<forall>n \<in> set element_names. CHR ''<'' \<notin> set n \<and> CHR 0x0A \<notin> set n\<close>
    by (simp add: element_names_def)
  then show \<open>name \<in> set element_names \<Longrightarrow> CHR ''<'' \<notin> set name \<and> CHR 0x0A \<notin> set name\<close>
    by blast
qed

lemma name_not_timeline_prefix:
  assumes "name \<in> set element_names" and \<open>name \<noteq> ''SegmentTimeline''\<close>
    and \<open>c = CHR '' '' \<or> c = CHR ''>''\<close>
  shows \<open>\<not> prefix ''SegmentTimeline'' (name @ c # X)\<close>
proof -
  have \<open>\<forall>n \<in> set element_names. n \<noteq> ''SegmentTimeline'' \<longrightarrow>
          \<not> prefix ''SegmentTimeline'' (n @ CHR '' '' # X)\<close>
    by (simp add: element_names_def)
  moreover have \<open>\<forall>n \<in> set element_names. n \<noteq> ''SegmentTimeline'' \<longrightarrow>
          \<not> prefix ''SegmentTimeline'' (n @ CHR ''>'' # X)\<close>
    by (simp add: element_names_def)
  ultimately show ?thesis using assms by blast
qed

lemma indent_line_start: \<open>line_start (indent_text d @ CHR ''<'' # r)\<close>
  by (cases d) (simp_all add: indent_text_def line_start_def)

lemma indent_plain: \<open>CHR 0x0A \<notin> set (indent_text d)\<close> \<open>CHR ''<'' \<notin> set (indent_text d)\<close>
  using indent_text_spaces [of d] by auto

lemma open_tag_free:
  assumes "name \<in> set element_names" and \<open>name \<noteq> ''SegmentTimeline''\<close>
    and \<open>mid = c # X\<close> and \<open>c = CHR '' '' \<or> c = CHR ''>''\<close> and \<open>CHR ''<'' \<notin> set mid\<close>
    and \<open>tail = [] \<or> tail = ''</'' @ name @ ''>''\<close>
  shows \<open>\<not> sublist timeline_open (indent_text d @ ''<'' @ name @ mid @ tail)\<close>
proof
  assume a: \<open>sublist timeline_open (indent_text d @ ''<'' @ name @ mid @ tail)\<close>
  have hd: \<open>hd timeline_open = CHR ''<''\<close> \<open>timeline_open \<noteq> []\<close>
    by (simp_all add: timeline_open_def)
  have nm: \<open>CHR ''<'' \<notin> set name\<close> using element_names_plain [OF assms(1)] by simp
  from a have \<open>sublist timeline_open (CHR ''<'' # name @ mid @ tail)\<close>
    using sublist_skip [OF hd(2), of "indent_text d"] hd(1) indent_plain(2) by simp
  then consider \<open>prefix timeline_open (CHR ''<'' # name @ mid @ tail)\<close>
    | \<open>sublist timeline_open ((name @ mid) @ tail)\<close>
    by (auto simp: sublist_Cons_right)
  then show False
  proof cases
    case 1
    then have \<open>prefix ''SegmentTimeline'' (name @ c # (X @ tail))\<close>
      using assms(3) by (simp add: timeline_open_def)
    then show ?thesis
      using name_not_timeline_prefix [OF assms(1,2,4)] by blast
  next
    case 2
    have nlt: \<open>CHR ''<'' \<notin> set (name @ mid)\<close> using nm assms(5) by simp
    show ?thesis
    proof (cases "tail = []")
      case True
      then have \<open>CHR ''<'' \<in> set (name @ mid)\<close>
        using 2 set_mono_sublist [of timeline_open "name @ mid"] by (auto simp: timeline_open_def)
      then show ?thesis using nlt by simp
    next
      case False
      then have t: \<open>tail = CHR ''<'' # (''/'' @ name @ ''>'')\<close> using assms(6) by simp
      have \<open>sublist timeline_open (CHR ''<'' # (''/'' @ name @ ''>''))\<close>
        using 2 sublist_skip [OF hd(2), of "name @ mid" tail] hd(1) nlt unfolding t by simp
      then have \<open>sublist timeline_open (''/'' @ name @ ''>'')\<close>
        by (simp add: sublist_Cons_right timeline_open_def)
      then have \<open>CHR ''<'' \<in> set (''/'' @ name @ ''>'')\<close>
        using set_mono_sublist by (fastforce simp: timeline_open_def)
      then show ?thesis using nm by simp
    qed
  qed
qed

lemma close_tag_free:
  assumes "name \<in> set element_names"
  shows \<open>\<not> sublist timeline_open (indent_text d @ ''</'' @ name @ ''>'')\<close>
proof
  assume a: \<open>sublist timeline_open (indent_text d @ ''</'' @ name @ ''>'')\<close>
  have hd: \<open>hd timeline_open = CHR ''<''\<close> \<open>timeline_open \<noteq> []\<close>
    by (simp_all add: timeline_open_def)
  have nm: \<open>CHR ''<'' \<notin> set name\<close> using element_names_plain [OF assms(1)] by simp
  from a have \<open>sublist timeline_open (CHR ''<'' # (''/'' @ name @ ''>''))\<close>
    using sublist_skip [OF hd(2), of "indent_text d"] hd(1) indent_plain(2) by simp
  then have \<open>sublist timeline_open (''/'' @ name @ ''>'')\<close>
    by (simp add: sublist_Cons_right timeline_open_def)
  then have \<open>CHR ''<'' \<in> set (''/'' @ name @ ''>'')\<close>
    using set_mono_sublist by (fastforce simp: timeline_open_def)
  then show False using nm by simp
qed

lemma text_only_plain:
  \<open>text_only kids = Some body \<Longrightarrow> CHR ''<'' \<notin> set body \<and> CHR 0x0A \<notin> set body\<close>
  by (induction kids rule: text_only.induct) (auto simp: EscapeString_plain)

lemma node_lines_good:
  "wf_node t \<Longrightarrow> is_Element t \<Longrightarrow> l \<in> set (node_lines d t) \<Longrightarrow> good_line l"
proof (induction t arbitrary: d l)
  case (CharData t)
  then show ?case by simp
next
  case (Element name attrs kids)
  let ?at = "concat (map attr_text attrs)"
  have nm: "name \<in> set element_names" and at: "list_all (\<lambda>a. plain_name (fst a)) attrs"
    using Element.prems(1) by simp_all
  note np = element_names_plain [OF nm]
  note ap = attrs_text_plain [OF at]
  show ?case
  proof (cases "text_only kids")
    case (Some body)
    then have l: \<open>l = indent_text d @ ''<'' @ name @ ?at @ ''>'' @ body @ ''</'' @ name @ ''>''\<close>
      using Element.prems(3) by simp
    note bp = text_only_plain [OF Some]
    have 1: \<open>CHR 0x0A \<notin> set l\<close>
      unfolding l using np ap bp indent_plain(1) [of d] by simp
    have 2: "line_start l" unfolding l using indent_line_start by simp
    show ?thesis
    proof (cases \<open>name = ''SegmentTimeline''\<close>)
      case True
      then have "attrs = []" "kids = []" using Element.prems(1) by simp_all
      then have \<open>l = indent_text d @ ''<SegmentTimeline></SegmentTimeline>''\<close>
        using l Some True by simp
      then show ?thesis using 1 2 unfolding good_line_def by blast
    next
      case False
      obtain c X where cx: \<open>?at @ ''>'' @ body = c # X\<close> \<open>c = CHR '' '' \<or> c = CHR ''>''\<close>
        using attrs_text_first [of attrs body] by blast
      have \<open>\<not> sublist timeline_open (indent_text d @ ''<'' @ name @ (?at @ ''>'' @ body) @ (''</'' @ name @ ''>''))\<close>
        by (rule open_tag_free [OF nm False cx]) (use ap bp in simp_all)
      then show ?thesis using 1 2 unfolding good_line_def l by simp
    qed
  next
    case None
    then have all: "\<forall>k \<in> set kids. is_Element k \<and> wf_node k" and ne: "kids \<noteq> []"
      using Element.prems(1) by auto
    have nt: \<open>name \<noteq> ''SegmentTimeline''\<close> using Element.prems(1) ne by auto
    from Element.prems(3) None consider
      \<open>l = indent_text d @ ''<'' @ name @ ?at @ ''>''\<close>
      | k where "k \<in> set kids" "l \<in> set (node_lines (Suc d) k)"
      | \<open>l = indent_text d @ ''</'' @ name @ ''>''\<close>
      by auto
    then show ?thesis
    proof cases
      case 1
      obtain c X where cx: \<open>?at @ ''>'' @ [] = c # X\<close> \<open>c = CHR '' '' \<or> c = CHR ''>''\<close>
        using attrs_text_first [of attrs "[]"] by blast
      have \<open>\<not> sublist timeline_open (indent_text d @ ''<'' @ name @ (?at @ ''>'' @ []) @ [])\<close>
        by (rule open_tag_free [OF nm nt cx]) (use ap in simp_all)
      moreover have \<open>CHR 0x0A \<notin> set l\<close>
        unfolding 1 using np ap indent_plain(1) [of d] by simp
      moreover have "line_start l" unfolding 1 using indent_line_start by simp
      ultimately show ?thesis unfolding good_line_def 1 by simp
    next
      case 2
      then show ?thesis using Element.IH all by blast
    next
      case 3
      have \<open>\<not> sublist timeline_open l\<close> unfolding 3 by (rule close_tag_free [OF nm])
      moreover have \<open>CHR 0x0A \<notin> set l\<close>
        unfolding 3 using np indent_plain(1) [of d] by simp
      moreover have "line_start l" unfolding 3 using indent_line_start by simp
      ultimately show ?thesis unfolding good_line_def by simp
    qed
  qed
qed

subsection \<open>The trees of documents\<close>

definition empty_timeline :: "SegmentTimeline \<Rightarrow> bool" where
  "empty_timeline t = (SegmentTimeline_Segments t = [])"

definition SegmentTemplate_ptr_timelines :: "SegmentTemplate option \<Rightarrow> SegmentTimeline list" where
  "SegmentTemplate_ptr_timelines v =
     (case v of None \<Rightarrow> [] | Some x \<Rightarrow> SegmentTemplate_SegmentTimeline x)"

definition Representation_timelines :: "Representation \<Rightarrow> SegmentTimeline list" where
  "Representation_timelines r = SegmentTemplate_ptr_timelines (Representation_SegmentTemplate r)"

definition AdaptationSet_timelines :: "AdaptationSet \<Rightarrow> SegmentTimeline list" where
  "AdaptationSet_timelines a =
     concat (map Representation_timelines (AdaptationSet_Representations a))
     @ SegmentTemplate_ptr_timelines (AdaptationSet_SegmentTemplate a)"

definition Period_timelines :: "Period \<Rightarrow> SegmentTimeline list" where
  "Period_timelines p =
     concat (map (\<lambda>a. case a of None \<Rightarrow> [] | Some x \<Rightarrow> AdaptationSet_timelines x)
               (Period_AdaptationSets p))"

definition MPD_timelines :: "MPD \<Rightarrow> SegmentTimeline list" where
  "MPD_timelines m =
     concat (map (\<lambda>p. case p of None \<Rightarrow> [] | Some x \<Rightarrow> Period_timelines x) (MPD_Periods m))"

definition ok :: "xml_node \<Rightarrow> bool" where
  "ok k = (is_Element k \<and> wf_node k)"

abbreviation plain_attrs :: "(string \<times> string) list \<Rightarrow> bool" where
  "plain_attrs attrs \<equiv> list_all (\<lambda>a. plain_name (fst a)) attrs"

lemma plain_attr_fields:
  assumes "plain_name n"
  shows "plain_attrs (attr_string n s)" "plain_attrs (attr_string_ptr n sp)"
    "plain_attrs (attr_uint64 n u)" "plain_attrs (attr_uint64_ptr n up)"
    "plain_attrs (attr_uint32_ptr n wp)" "plain_attrs (attr_int64_ptr n ip)"
    "plain_attrs (attr_bool_ptr n bp)" "plain_attrs (attr_ConditionalUint n c)"
  using assms
  by (simp_all add: attr_string_def attr_string_ptr_def attr_uint64_def attr_uint64_ptr_def
      attr_uint32_ptr_def attr_int64_ptr_def attr_bool_ptr_def attr_ConditionalUint_def
      MarshalXMLAttr_def zero_Attr_def zero_Name_def Let_def split: option.splits)

lemma ok_Element:
  assumes "name \<in> set element_names" and "plain_attrs attrs" and \<open>name \<noteq> ''SegmentTimeline''\<close>
    and "text_only kids \<noteq> None \<or> (\<forall>k \<in> set kids. ok k)"
  shows "ok (Element name attrs kids)"
  using assms by (auto simp: ok_def)

lemma ok_elem_ptr: "(\<And>x. v = Some x \<Longrightarrow> ok (f x)) \<Longrightarrow> \<forall>k \<in> set (elem_ptr f v). ok k"
  by (cases v) (simp_all add: elem_ptr_def)

lemma ok_BaseURL: \<open>\<forall>k \<in> set (elem_string_omitempty ''BaseURL'' v). ok k\<close>
  by (simp add: elem_string_omitempty_def ok_def element_names_def)

lemma text_only_chardata_ptr: "text_only (chardata_string_ptr v) \<noteq> None"
  by (cases v) (simp_all add: chardata_string_ptr_def)

lemmas names_simps = element_names_def plain_name_def plain_attr_fields [unfolded plain_name_def]

lemma ok_SegmentTimelineSegment: "ok (SegmentTimelineSegment_node x)"
  unfolding SegmentTimelineSegment_node_def
  by (rule ok_Element) (simp_all add: names_simps)

lemma ok_SegmentTimeline: "empty_timeline t \<Longrightarrow> ok (SegmentTimeline_node t)"
  by (simp add: SegmentTimeline_node_def empty_timeline_def ok_def element_names_def)

lemma ok_SegmentTemplate:
  "list_all empty_timeline (SegmentTemplate_SegmentTimeline x) \<Longrightarrow> ok (SegmentTemplate_node x)"
  unfolding SegmentTemplate_node_def
proof (rule ok_Element)
  assume "list_all empty_timeline (SegmentTemplate_SegmentTimeline x)"
  then have "\<forall>t \<in> set (SegmentTemplate_SegmentTimeline x). ok (SegmentTimeline_node t)"
    by (auto simp: list_all_iff ok_SegmentTimeline)
  then show "text_only (map SegmentTimeline_node (SegmentTemplate_SegmentTimeline x)) \<noteq> None \<or>
    (\<forall>k \<in> set (map SegmentTimeline_node (SegmentTemplate_SegmentTimeline x)). ok k)"
    by auto
qed (simp_all add: names_simps)

lemma ok_SegmentTemplate_ptr:
  "list_all empty_timeline (SegmentTemplate_ptr_timelines v) \<Longrightarrow>
   \<forall>k \<in> set (elem_ptr SegmentTemplate_node v). ok k"
  by (rule ok_elem_ptr) (simp add: SegmentTemplate_ptr_timelines_def ok_SegmentTemplate)

lemma ok_Pssh: "ok (Pssh_node x)"
  unfolding Pssh_node_def
  by (rule ok_Element) (simp_all add: names_simps text_only_chardata_ptr)

lemma ok_Pro: "ok (Pro_node x)"
  unfolding Pro_node_def
  by (rule ok_Element) (simp_all add: names_simps text_only_chardata_ptr)

lemma ok_ContentProtection: "ok (ContentProtection_node x)"
  unfolding ContentProtection_node_def
  by (rule ok_Element) (use ok_elem_ptr [of _ Pssh_node] ok_elem_ptr [of _ Pro_node] in
      \<open>auto simp: names_simps ok_Pssh ok_Pro\<close>)

lemma ok_Event: "ok (Event_node x)"
  unfolding Event_node_def
  by (rule ok_Element) (simp_all add: names_simps)

lemma ok_EventStream: "ok (EventStream_node x)"
  unfolding EventStream_node_def
  by (rule ok_Element) (auto simp: names_simps ok_Event)

lemma ok_ProgramEventStream: "ok (ProgramEventStream_node x)"
  unfolding ProgramEventStream_node_def
  by (rule ok_Element) (auto simp: names_simps ok_Event)

lemma ok_AudioChannelConfiguration: "ok (AudioChannelConfiguration_node x)"
  unfolding AudioChannelConfiguration_node_def
  by (rule ok_Element) (simp_all add: names_simps)

lemma ok_SupplementalProperty: \<open>ok (Descriptor_node ''SupplementalProperty'' x)\<close>
  unfolding Descriptor_node_def
  by (rule ok_Element) (simp_all add: names_simps)

lemma ok_Representation:
  assumes "list_all empty_timeline (Representation_timelines r)"
  shows "ok (Representation_node r)"
  unfolding Representation_node_def
proof (rule ok_Element)
  have "\<forall>k \<in> set (elem_ptr SegmentTemplate_node (Representation_SegmentTemplate r)). ok k"
    using assms by (intro ok_SegmentTemplate_ptr) (simp add: Representation_timelines_def)
  moreover have "\<forall>k \<in> set (elem_ptr AudioChannelConfiguration_node
                    (Representation_AudioChannelConfiguration r)). ok k"
    by (rule ok_elem_ptr) (rule ok_AudioChannelConfiguration)
  ultimately show "text_only
     (map ContentProtection_node (Representation_ContentProtections r) @
      elem_ptr SegmentTemplate_node (Representation_SegmentTemplate r) @
      elem_ptr AudioChannelConfiguration_node (Representation_AudioChannelConfiguration r)) \<noteq> None \<or>
    (\<forall>k \<in> set (map ContentProtection_node (Representation_ContentProtections r) @
      elem_ptr SegmentTemplate_node (Representation_SegmentTemplate r) @
      elem_ptr AudioChannelConfiguration_node (Representation_AudioChannelConfiguration r)). ok k)"
    by (auto simp: ok_ContentProtection)
qed (simp_all add: names_simps)

lemma ok_AdaptationSet:
  assumes "list_all empty_timeline (AdaptationSet_timelines a)"
  shows "ok (AdaptationSet_node a)"
  unfolding AdaptationSet_node_def
proof (rule ok_Element)
  have "\<forall>k \<in> set (elem_ptr SegmentTemplate_node (AdaptationSet_SegmentTemplate a)). ok k"
    using assms by (intro ok_SegmentTemplate_ptr) (simp add: AdaptationSet_timelines_def)
  moreover have "list_all empty_timeline (Representation_timelines r)"
    if "r \<in> set (AdaptationSet_Representations a)" for r
    using assms that by (auto simp: AdaptationSet_timelines_def list_all_iff)
  then have "\<forall>r \<in> set (AdaptationSet_Representations a). ok (Representation_node r)"
    using ok_Representation by blast
  ultimately show "text_only
     (map ContentProtection_node (AdaptationSet_ContentProtections a) @
      map Representation_node (AdaptationSet_Representations a) @
      elem_ptr SegmentTemplate_node (AdaptationSet_SegmentTemplate a)) \<noteq> None \<or>
    (\<forall>k \<in> set (map ContentProtection_node (AdaptationSet_ContentProtections a) @
      map Representation_node (AdaptationSet_Representations a) @
      elem_ptr SegmentTemplate_node (AdaptationSet_SegmentTemplate a)). ok k)"
    by (auto simp: ok_ContentProtection)
qed (simp_all add: names_simps)

lemma ok_Period:
  assumes "list_all empty_timeline (Period_timelines p)"
  shows "ok (Period_node p)"
  unfolding Period_node_def
proof (rule ok_Element)
  have "\<forall>k \<in> set (elem_ptr AdaptationSet_node v). ok k" if "v \<in> set (Period_AdaptationSets p)" for v
  proof (rule ok_elem_ptr)
    fix x assume "v = Some x"
    then have "list_all empty_timeline (AdaptationSet_timelines x)"
      using assms that by (force simp: Period_timelines_def list_all_iff)
    then show "ok (AdaptationSet_node x)" by (rule ok_AdaptationSet)
  qed
  then have "\<forall>k \<in> set (concat (map (elem_ptr AdaptationSet_node) (Period_AdaptationSets p))). ok k"
    by auto
  moreover have "\<forall>k \<in> set (elem_ptr (Descriptor_node ''SupplementalProperty'')
                    (Period_SupplementalProperty p)). ok k"
    by (rule ok_elem_ptr) (rule ok_SupplementalProperty)
  ultimately show "text_only
     (elem_ptr (Descriptor_node ''SupplementalProperty'') (Period_SupplementalProperty p) @
      elem_string_omitempty ''BaseURL'' (Period_BaseURL p) @
      map EventStream_node (Period_EventStreams p) @
      map ProgramEventStream_node (Period_ProgramEventStreams p) @
      concat (map (elem_ptr AdaptationSet_node) (Period_AdaptationSets p))) \<noteq> None \<or>
    (\<forall>k \<in> set (elem_ptr (Descriptor_node ''SupplementalProperty'') (Period_SupplementalProperty p) @
      elem_string_omitempty ''BaseURL'' (Period_BaseURL p) @
      map EventStream_node (Period_EventStreams p) @
      map ProgramEventStream_node (Period_ProgramEventStreams p) @
      concat (map (elem_ptr AdaptationSet_node) (Period_AdaptationSets p))). ok k)"
    using ok_BaseURL [of "Period_BaseURL p"]
    by (auto simp: ok_EventStream ok_ProgramEventStream)
qed (simp_all add: names_simps)

lemma ok_MPD:
  assumes "list_all empty_timeline (MPD_timelines m)"
  shows "ok (MPD_node m)"
  unfolding MPD_node_def
proof (rule ok_Element)
  have "\<forall>k \<in> set (elem_ptr Period_node v). ok k" if "v \<in> set (MPD_Periods m)" for v
  proof (rule ok_elem_ptr)
    fix x assume "v = Some x"
    then have "list_all empty_timeline (Period_timelines x)"
      using assms that by (force simp: MPD_timelines_def list_all_iff)
    then show "ok (Period_node x)" by (rule ok_Period)
  qed
  then have "\<forall>k \<in> set (concat (map (elem_ptr Period_node) (MPD_Periods m))). ok k"
    by auto
  then show "text_only
     (elem_string_omitempty ''BaseURL'' (MPD_BaseURL m) @
      concat (map (elem_ptr Period_node) (MPD_Periods m))) \<noteq> None \<or>
    (\<forall>k \<in> set (elem_string_omitempty ''BaseURL'' (MPD_BaseURL m) @
      concat (map (elem_ptr Period_node) (MPD_Periods m))). ok k)"
    using ok_BaseURL [of "MPD_BaseURL m"] by auto
qed (simp_all add: names_simps)

subsection \<open>The output of Encode\<close>

lemma xml_Encode_lines:
  assumes "ok (MPD_node m)"
  shows \<open>xml_Encode m = Inr (join (node_lines 0 (MPD_node m)) [CHR 0x0A])\<close>
proof -
  have "print_node (MPD_node m) new_printer = printed new_printer (MPD_node m)"
    using assms by (intro print_node_lines) (simp_all add: ok_def)
  then show ?thesis
    by (simp add: xml_Encode_def printed_def new_printer_def)
qed

lemma good_piece:
  assumes "good_line l" and \<open>e = [] \<or> e = [CHR 0x0A]\<close>
  shows "rewrite_line (l @ e) = []
         \<or> (line_start (rewrite_line (l @ e)) \<and> \<not> sublist timeline_open (rewrite_line (l @ e)))"
proof (cases "sublist timeline_open l")
  case True
  then obtain n where \<open>l = indent_text n @ ''<SegmentTimeline></SegmentTimeline>''\<close>
    using assms(1) by (auto simp: good_line_def)
  then have "rewrite_line (l @ e) = []"
    using timeline_line_dropped [OF assms(2), of n] by simp
  then show ?thesis by simp
next
  case False
  have "\<not> sublist timeline_open (l @ e)"
  proof (cases "e = []")
    case True
    then show ?thesis using False by simp
  next
    case ne: False
    then have e: \<open>l @ e = l @ CHR 0x0A # []\<close> using assms(2) by simp
    show ?thesis
      unfolding e sublist_sep [OF timeline_open_chars(4)]
      using False timeline_open_chars(5) by simp
  qed
  then have 1: "\<not> sublist timeline_open (rewrite_line (l @ e))"
    by (rule rewrite_line_keeps_absent)
  have "line_start (l @ e)"
    using assms(1) by (auto simp: good_line_def line_start_def split: list.splits)
  then have "rewrite_line (l @ e) = [] \<or> line_start (rewrite_line (l @ e))"
    by (rule rewrite_line_line_start)
  then show ?thesis using 1 by blast
qed

lemma rewrite_loop_no_timeline:
  assumes "\<forall>l \<in> set ls. good_line l"
  shows \<open>\<not> sublist timeline_open (rewrite_loop (join ls [CHR 0x0A]))\<close>
proof -
  have nl: \<open>\<forall>l \<in> set ls. CHR 0x0A \<notin> set l\<close>
    using assms by (simp add: good_line_def)
  have "\<forall>p \<in> set (map rewrite_line (read_lines (join ls [CHR 0x0A]))).
          p = [] \<or> (line_start p \<and> \<not> sublist timeline_open p)"
  proof
    fix p assume "p \<in> set (map rewrite_line (read_lines (join ls [CHR 0x0A])))"
    then obtain x where x: \<open>x \<in> set (read_lines (join ls [CHR 0x0A]))\<close> and p: "p = rewrite_line x"
      by auto
    obtain l where l: "l \<in> set ls" and \<open>x = l \<or> x = l @ [CHR 0x0A]\<close>
      using read_lines_join [OF nl x] by blast
    then obtain e where \<open>x = l @ e\<close> \<open>e = [] \<or> e = [CHR 0x0A]\<close>
      by auto
    then show "p = [] \<or> (line_start p \<and> \<not> sublist timeline_open p)"
      using good_piece [of l e] assms l p by blast
  qed
  then show ?thesis
    unfolding rewrite_loop_lines using concat_keeps_absent by blast
qed

theorem Encode_no_empty_timeline:
  assumes "list_all empty_timeline (MPD_timelines m)"
  shows \<open>\<exists>out. Encode m = Inr out \<and> \<not> Contains out ''<SegmentTimeline''\<close>
proof -
  have ok: "ok (MPD_node m)" using assms by (rule ok_MPD)
  let ?x = \<open>join (node_lines 0 (MPD_node m)) [CHR 0x0A]\<close>
  have x: "xml_Encode m = Inr ?x" using ok by (rule xml_Encode_lines)
  have "\<forall>l \<in> set (node_lines 0 (MPD_node m)). good_line l"
    using ok node_lines_good by (auto simp: ok_def)
  then have 1: "\<not> sublist timeline_open (rewrite_loop ?x)"
    by (rule rewrite_loop_no_timeline)
  have 2: "\<not> sublist timeline_open xml_header"
    by (simp add: xml_header_def timeline_open_def sublist_Cons_right)
  have "\<not> sublist timeline_open (xml_header @ CHR 0x0A # (rewrite_loop ?x @ CHR 0x0A # []))"
    unfolding sublist_sep [OF timeline_open_chars(4)]
    using 1 2 timeline_open_chars(5) by simp
  then have \<open>\<not> Contains (xml_header @ [CHR 0x0A] @ rewrite_loop ?x @ [CHR 0x0A]) ''<SegmentTimeline''\<close>
    by (simp add: Contains_sublist timeline_open_def)
  then show ?thesis
    by (simp add: Encode_def x)
qed

end
